theory Spec2Isabelle
  imports Main
begin

section \<open>JavaScript helpers used by the front end\<close>

text \<open>
  \<open>String.prototype.split\<close> with a one-character separator: the pieces between the
  occurrences of the separator, so a string without the separator gives one piece (the
  string itself) and the empty string gives one empty piece.
\<close>

fun js_split :: "char \<Rightarrow> string \<Rightarrow> string list" where
  "js_split sep [] = [[]]"
| "js_split sep (c # cs) =
     (if c = sep then [] # js_split sep cs
      else (case js_split sep cs of
              [] \<Rightarrow> [[c]]
            | w # ws \<Rightarrow> (c # w) # ws))"

text \<open>
  Reading an array by index: \<open>arr[i]\<close> is \<open>undefined\<close> (here \<open>None\<close>) when the index is
  not below the length.
\<close>

definition js_index :: "'a list \<Rightarrow> nat \<Rightarrow> 'a option" where
  "js_index xs i = (if i < length xs then Some (xs ! i) else None)"

text \<open>Truthiness of a field that holds a string or is absent (\<open>undefined\<close>).\<close>

fun truthy :: "string option \<Rightarrow> bool" where
  "truthy None = False"
| "truthy (Some s) = (s \<noteq> [])"

text \<open>
  \<open>Number.prototype.toString\<close> on an integer: the decimal digits, with a minus sign
  for a negative number (the depths passed here are small integers; the exponent form
  that JavaScript uses from \<open>1e21\<close> on is outside the model).
\<close>

definition digit_char :: "nat \<Rightarrow> char" where
  "digit_char n = ''0123456789'' ! n"

function number_digits :: "nat \<Rightarrow> string" where
  "number_digits n =
     (if n < 10 then [digit_char n] else number_digits (n div 10) @ [digit_char (n mod 10)])"
  by pat_completeness auto
termination
  by (relation "measure (\<lambda>n. n)") auto

declare number_digits.simps [simp del]

definition number_toString :: "int \<Rightarrow> string" where
  "number_toString i =
     (if i < 0 then CHR ''-'' # number_digits (nat (- i)) else number_digits (nat i))"

text \<open>\<open>Array.prototype.join\<close> with a separator.\<close>

fun js_join :: "string \<Rightarrow> string list \<Rightarrow> string" where
  "js_join sep [] = []"
| "js_join sep [x] = x"
| "js_join sep (x # y # ys) = x @ sep @ js_join sep (y # ys)"

text \<open>
  \<open>toLowerCase\<close>, \<open>trim\<close> and \<open>includes\<close> on strings. Strings are byte lists here, so
  the case mapping and the white space are the ASCII ones.
\<close>

definition lower_char :: "char \<Rightarrow> char" where
  "lower_char c =
     (if 65 \<le> (of_char c :: nat) \<and> (of_char c :: nat) \<le> 90
      then char_of ((of_char c :: nat) + 32) else c)"

definition toLowerCase :: "string \<Rightarrow> string" where
  "toLowerCase s = map lower_char s"

definition is_space :: "char \<Rightarrow> bool" where
  "is_space c = ((of_char c :: nat) \<in> {9, 10, 11, 12, 13, 32})"

definition js_trim :: "string \<Rightarrow> string" where
  "js_trim s = rev (dropWhile is_space (rev (dropWhile is_space s)))"

fun starts_with :: "string \<Rightarrow> string \<Rightarrow> bool" where
  "starts_with s [] = True"
| "starts_with [] (q # qs) = False"
| "starts_with (c # cs) (q # qs) = (c = q \<and> starts_with cs qs)"

fun js_includes :: "string \<Rightarrow> string \<Rightarrow> bool" where
  "js_includes [] q = (q = [])"
| "js_includes (c # cs) q = (starts_with (c # cs) q \<or> js_includes cs q)"

datatype 'a js_arg = Undefined | Null | Val 'a

datatype js_error = TypeError

section \<open>API client (apiService)\<close>

text \<open>
  A request as \<open>apiService\<close> issues it: the path prefix, the node id that
  \<open>encodeURIComponent\<close> puts after it, and the pairs appended to the
  \<open>URLSearchParams\<close>, in order. The percent-encoding of both is the browser's.
\<close>

record request =
  endpoint :: string
  node :: string
  params :: "(string \<times> string) list"

text \<open>
  A default parameter value replaces \<open>undefined\<close> only, so an explicit \<open>null\<close> stays
  \<open>null\<close>.
\<close>

definition default_arg :: "'a js_arg \<Rightarrow> 'a js_arg \<Rightarrow> 'a js_arg" where
  "default_arg d a = (case a of Undefined \<Rightarrow> d | _ \<Rightarrow> a)"

text \<open>
  The body that \<open>getDownstream\<close>, \<open>getUpstream\<close> and \<open>getBlastRadius\<close> share, up to the
  \<open>api.get\<close> call: \<open>max_depth\<close> is appended always, \<open>edge_types\<close> when \<open>edgeTypes\<close> is
  truthy (an array is, also the empty one). \<open>maxDepth.toString()\<close> on \<open>null\<close> throws
  inside the \<open>try\<close>, and the \<open>catch\<close> rethrows.
\<close>

definition traversal_request ::
  "string \<Rightarrow> string \<Rightarrow> int js_arg \<Rightarrow> string list js_arg \<Rightarrow> js_error + request" where
  "traversal_request prefix nodeId maxDepth edgeTypes =
     (case maxDepth of
        Val d \<Rightarrow>
          Inr \<lparr>endpoint = prefix, node = nodeId,
               params = (''max_depth'', number_toString d) #
                 (case edgeTypes of
                    Val ts \<Rightarrow> [(''edge_types'', js_join '','' ts)]
                  | _ \<Rightarrow> [])\<rparr>
      | _ \<Rightarrow> Inl TypeError)"

definition getDownstream ::
  "string \<Rightarrow> int js_arg \<Rightarrow> string list js_arg \<Rightarrow> js_error + request" where
  "getDownstream nodeId maxDepth edgeTypes =
     traversal_request ''/api/query/downstream/'' nodeId
       (default_arg (Val 10) maxDepth) (default_arg Null edgeTypes)"

definition getUpstream ::
  "string \<Rightarrow> int js_arg \<Rightarrow> string list js_arg \<Rightarrow> js_error + request" where
  "getUpstream nodeId maxDepth edgeTypes =
     traversal_request ''/api/query/upstream/'' nodeId
       (default_arg (Val 10) maxDepth) (default_arg Null edgeTypes)"

definition getBlastRadius :: "string \<Rightarrow> int js_arg \<Rightarrow> js_error + request" where
  "getBlastRadius nodeId maxDepth =
     traversal_request ''/api/query/blast-radius/'' nodeId
       (default_arg (Val 5) maxDepth) Null"

section \<open>EnterpriseDashboard: loading and filtering the graph\<close>

text \<open>
  A node and an edge of the \<open>/api/graph/data\<close> response, with the fields the dashboard
  reads. \<open>team\<close> may be absent.
\<close>

record gnode =
  node_id :: string
  node_name :: string
  node_type :: string
  node_team :: "string option"

record gedge =
  e_source :: string
  e_target :: string
  e_type :: string

text \<open>
  The end of a link is the id it was loaded with, or the node object that the force
  graph puts in its place once it has laid the link out.
\<close>

datatype endpoint = Id string | NodeObj gnode

record link =
  l_source :: endpoint
  l_target :: endpoint
  l_type :: string

record graph_data =
  nodes :: "gnode list"
  links :: "link list"

record stats =
  totalNodes :: nat
  services :: nat
  databases :: nat
  teams :: nat
  edges :: nat

record dashboard =
  graphData :: graph_data
  stats :: stats

text \<open>
  The response body: \<open>data.nodes\<close> and \<open>data.edges\<close>, each possibly absent; the values
  of the object (or the array) in their order.
\<close>

record graph_json =
  json_nodes :: "gnode list option"
  json_edges :: "gedge list option"

definition initial_dashboard :: dashboard where
  "initial_dashboard =
     \<lparr>graphData = \<lparr>nodes = [], links = []\<rparr>,
      stats = \<lparr>totalNodes = 0, services = 0, databases = 0, teams = 0, edges = 0\<rparr>\<rparr>"

definition validEdges :: "gnode list \<Rightarrow> gedge list \<Rightarrow> gedge list" where
  "validEdges nodesArray edgesArray =
     (let nodeIds = set (map node_id nodesArray)
      in filter (\<lambda>e. e_source e \<in> nodeIds \<and> e_target e \<in> nodeIds) edgesArray)"

text \<open>
  \<open>loadGraphData\<close>. The response is \<open>None\<close> when the fetch fails, the status is not ok
  or the body does not parse: the \<open>catch\<close> logs and leaves the state as it was.
\<close>

definition loadGraphData :: "graph_json option \<Rightarrow> dashboard \<Rightarrow> dashboard" where
  "loadGraphData response st =
     (case response of
        None \<Rightarrow> st
      | Some data \<Rightarrow>
          (let nodesArray = (case json_nodes data of Some ns \<Rightarrow> ns | None \<Rightarrow> []);
               edgesArray = (case json_edges data of Some es \<Rightarrow> es | None \<Rightarrow> []);
               valid = validEdges nodesArray edgesArray
           in \<lparr>graphData =
                 \<lparr>nodes = nodesArray,
                  links = map (\<lambda>e. \<lparr>l_source = Id (e_source e), l_target = Id (e_target e),
                                      l_type = e_type e\<rparr>) valid\<rparr>,
               stats =
                 \<lparr>totalNodes = length nodesArray,
                  services = length (filter (\<lambda>n. node_type n = ''service'') nodesArray),
                  databases = length (filter (\<lambda>n. node_type n = ''database'') nodesArray),
                  teams = length (filter (\<lambda>n. node_type n = ''team'') nodesArray),
                  edges = length valid\<rparr>\<rparr>))"

text \<open>
  \<open>nodeIds.has(link.source.id || link.source)\<close>: a string has no \<open>id\<close>, so the string
  itself is looked up; a node object is looked up by its id when that id is truthy, and as
  the object itself (never a member of a set of ids) when it is not.
\<close>

fun has_endpoint :: "string set \<Rightarrow> endpoint \<Rightarrow> bool" where
  "has_endpoint nodeIds (Id s) = (s \<in> nodeIds)"
| "has_endpoint nodeIds (NodeObj n) = (node_id n \<noteq> [] \<and> node_id n \<in> nodeIds)"

definition refilter_links :: "gnode list \<Rightarrow> link list \<Rightarrow> link list" where
  "refilter_links filteredNodes filteredLinks =
     (let nodeIds = set (map node_id filteredNodes)
      in filter (\<lambda>l. has_endpoint nodeIds (l_source l) \<and> has_endpoint nodeIds (l_target l))
           filteredLinks)"

definition type_filter_active :: "string \<Rightarrow> bool" where
  "type_filter_active filterType = (filterType \<noteq> [] \<and> filterType \<noteq> ''all'')"

definition search_active :: "string \<Rightarrow> bool" where
  "search_active searchQuery = (js_trim searchQuery \<noteq> [])"

definition matches_search :: "string \<Rightarrow> gnode \<Rightarrow> bool" where
  "matches_search query n =
     (js_includes (toLowerCase (node_name n)) query \<or>
      js_includes (toLowerCase (node_id n)) query \<or>
      (case node_team n of
         None \<Rightarrow> False
       | Some t \<Rightarrow> t \<noteq> [] \<and> js_includes (toLowerCase t) query))"

definition filteredData :: "graph_data \<Rightarrow> string \<Rightarrow> string \<Rightarrow> graph_data" where
  "filteredData gd filterType searchQuery =
     (let (filteredNodes, filteredLinks) =
            (if type_filter_active filterType
             then (let ns = filter (\<lambda>n. node_type n = filterType) (nodes gd)
                   in (ns, refilter_links ns (links gd)))
             else (nodes gd, links gd));
          (filteredNodes, filteredLinks) =
            (if search_active searchQuery
             then (let query = toLowerCase searchQuery;
                       ns = filter (matches_search query) filteredNodes
                   in (ns, refilter_links ns filteredLinks))
             else (filteredNodes, filteredLinks))
      in \<lparr>nodes = filteredNodes, links = filteredLinks\<rparr>)"

text \<open>
  The id of the node a link end stands for, and the property that every link of a view
  ends in nodes of that view.
\<close>

fun endpoint_id :: "endpoint \<Rightarrow> string" where
  "endpoint_id (Id s) = s"
| "endpoint_id (NodeObj n) = node_id n"

definition links_closed :: "graph_data \<Rightarrow> bool" where
  "links_closed gd =
     list_all (\<lambda>l. endpoint_id (l_source l) \<in> set (map node_id (nodes gd)) \<and>
                    endpoint_id (l_target l) \<in> set (map node_id (nodes gd))) (links gd)"

section \<open>ChatMessage: rendering a chat response\<close>

text \<open>
  The content of a chat message is a string or a response object. The fields of the
  object that \<open>renderContent\<close> reads before and inside its \<open>blast_radius\<close> branch; an
  absent field (\<open>undefined\<close>) is \<open>None\<close>.
\<close>

record team_info =
  t_services :: "string list option"
  t_lead :: "string option"
  t_slack :: "string option"

record response_obj =
  c_type :: "string option"
  c_error :: "string option"
  c_suggestion :: "string option"
  c_message :: "string option"
  c_details :: "string option"
  service_analyzed :: "string option"
  affected_services_count :: "int option"
  affected_services :: "string list option"
  team_details :: "(string \<times> team_info) list option"
  teams_count :: "int option"
  severity :: "string option"

datatype content = Str string | Obj response_obj

text \<open>What is rendered, with the texts that depend on the content.\<close>

record service_chip =
  chip_key :: string
  chip_label :: "string option"

record team_card =
  card_name :: string
  card_services :: nat
  card_lead :: "string option"
  card_slack :: "string option"

record teams_section =
  ts_count :: "int option"
  ts_plural :: string
  ts_cards :: "team_card list"

datatype severity_colour = Red | Amber | Green

record impact =
  imp_count :: int
  imp_plural :: string
  imp_chips :: "service_chip list"
  imp_teams :: "teams_section option"
  imp_colour :: severity_colour
  imp_severity :: "string option"

datatype blast_body = Impacted impact | NoDirectImpact

text \<open>
  \<open>LaterBranch\<close> stands for the branches of \<open>renderContent\<close> after the \<open>blast_radius\<close>
  one (ownership, team_info, dependencies, connection, database, message, JSON dump).
\<close>

datatype rendered =
    PlainText string
  | SuccessPanel "string option" "string option"
  | ErrorPanel string "string option"
  | BlastRadiusPanel "string option" blast_body
  | LaterBranch

text \<open>
  The name shown for an affected service, \<open>serviceId.split(':')[1]\<close> in the
  \<open>affected_services.map\<close> callback of \<open>renderContent\<close>.
\<close>

definition serviceName :: "string \<Rightarrow> string option" where
  "serviceName serviceId = js_index (js_split (CHR '':'') serviceId) 1"

definition render_service :: "string \<Rightarrow> service_chip" where
  "render_service serviceId = \<lparr>chip_key = serviceId, chip_label = serviceName serviceId\<rparr>"

text \<open>\<open>teamInfo.services.length\<close> throws when \<open>services\<close> is absent.\<close>

definition render_team :: "string \<times> team_info \<Rightarrow> js_error + team_card" where
  "render_team entry =
     (case t_services (snd entry) of
        None \<Rightarrow> Inl TypeError
      | Some ss \<Rightarrow>
          Inr \<lparr>card_name = fst entry, card_services = length ss,
               card_lead = t_lead (snd entry), card_slack = t_slack (snd entry)\<rparr>)"

fun collect :: "('e + 'a) list \<Rightarrow> 'e + 'a list" where
  "collect [] = Inr []"
| "collect (Inl e # rs) = Inl e"
| "collect (Inr x # rs) = (case collect rs of Inl e \<Rightarrow> Inl e | Inr xs \<Rightarrow> Inr (x # xs))"

definition plural :: "int option \<Rightarrow> string" where
  "plural n = (if n \<noteq> Some 1 then ''s'' else [])"

definition when_truthy :: "string option \<Rightarrow> string option" where
  "when_truthy v = (if truthy v then v else None)"

definition severity_class :: "string option \<Rightarrow> severity_colour" where
  "severity_class sev =
     (if sev = Some ''HIGH'' then Red else if sev = Some ''MEDIUM'' then Amber else Green)"

text \<open>
  The \<open>blast_radius\<close> branch. \<open>affected_services_count > 0\<close> is false for an absent
  count; \<open>affected_services.map\<close> throws when the list is absent.
\<close>

definition render_blast_radius :: "response_obj \<Rightarrow> js_error + rendered" where
  "render_blast_radius c =
     (case affected_services_count c of
        None \<Rightarrow> Inr (BlastRadiusPanel (service_analyzed c) NoDirectImpact)
      | Some n \<Rightarrow>
          if n > 0 then
            (case affected_services c of
               None \<Rightarrow> Inl TypeError
             | Some ids \<Rightarrow>
                 (case (case team_details c of
                          None \<Rightarrow> Inr None
                        | Some ds \<Rightarrow>
                            (case collect (map render_team ds) of
                               Inl e \<Rightarrow> Inl e
                             | Inr cards \<Rightarrow>
                                 Inr (Some \<lparr>ts_count = teams_count c,
                                            ts_plural = plural (teams_count c),
                                            ts_cards = cards\<rparr>))) of
                    Inl e \<Rightarrow> Inl e
                  | Inr tsec \<Rightarrow>
                      Inr (BlastRadiusPanel (service_analyzed c)
                            (Impacted \<lparr>imp_count = n, imp_plural = plural (Some n),
                                       imp_chips = map render_service ids,
                                       imp_teams = tsec,
                                       imp_colour = severity_class (severity c),
                                       imp_severity = severity c\<rparr>))))
          else Inr (BlastRadiusPanel (service_analyzed c) NoDirectImpact))"

definition renderContent :: "content \<Rightarrow> js_error + rendered" where
  "renderContent content =
     (case content of
        Str s \<Rightarrow> Inr (PlainText s)
      | Obj c \<Rightarrow>
          if c_type c = Some ''success''
          then Inr (SuccessPanel (c_message c) (when_truthy (c_details c)))
          else (case when_truthy (c_error c) of
                  Some e \<Rightarrow> Inr (ErrorPanel e (when_truthy (c_suggestion c)))
                | None \<Rightarrow>
                    if c_type c = Some ''blast_radius''
                    then render_blast_radius c
                    else Inr LaterBranch))"

section \<open>Graph storage, merge gate and traversal engine\<close>

text \<open>
  The storage back end, the merge gate and the query engine are Python modules that are
  not among the sources; what the front end above calls through the HTTP API is modelled
  here from the specification.
\<close>

text \<open>
  Modelled from the spec: the values of the open property mapping of a node or an edge (a
  scalar or a nested structure). The mapping itself is kept as an association list read
  with \<open>map_of\<close>.
\<close>

datatype pval = PStr string | PInt int | PBool bool | PNested "(string \<times> pval) list"

text \<open>
  Modelled from the spec: the Node value type (section 3): identifier, name, type tag and
  properties. The identifier and the name are fields of the record, so a node without
  them is not a value of the type.
\<close>

record Node =
  nid :: string
  name :: string
  ntype :: string
  nprops :: "(string \<times> pval) list"

text \<open>
  Modelled from the spec: the Edge value type (section 3): source id, target id,
  relationship type and properties.
\<close>

record Edge =
  source :: string
  target :: string
  etype :: string
  eprops :: "(string \<times> pval) list"

text \<open>
  Modelled from the spec: the KnowledgeGraph container (section 3); the nodes and the
  edges in the order the store returns them from \<open>allNodes\<close> and \<open>allEdges\<close>.
\<close>

record KnowledgeGraph =
  kg_nodes :: "Node list"
  kg_edges :: "Edge list"

text \<open>Modelled from the spec: the error taxonomy of section 7.\<close>

datatype error = NotFound | DanglingReferenceError | InvalidArgument | BackendUnavailable

text \<open>Modelled from the spec: the graph as created at process start.\<close>

definition empty_graph :: KnowledgeGraph where
  "empty_graph = \<lparr>kg_nodes = [], kg_edges = []\<rparr>"

text \<open>Modelled from the spec: whether an id is in the current node set.\<close>

definition has_node :: "KnowledgeGraph \<Rightarrow> string \<Rightarrow> bool" where
  "has_node g i = (i \<in> set (map nid (kg_nodes g)))"

text \<open>Modelled from the spec: \<open>getNode(id)\<close> of section 4.1, the node or \<open>NotFound\<close>.\<close>

definition getNode :: "KnowledgeGraph \<Rightarrow> string \<Rightarrow> error + Node" where
  "getNode g i =
     (case find (\<lambda>n. nid n = i) (kg_nodes g) of
        None \<Rightarrow> Inl NotFound
      | Some n \<Rightarrow> Inr n)"

text \<open>
  Modelled from the spec: \<open>upsertNode(node)\<close> of section 4.1, insert or replace by id; a
  replaced node is replaced whole, and the edges are not touched.
\<close>

definition upsertNode :: "Node \<Rightarrow> KnowledgeGraph \<Rightarrow> KnowledgeGraph" where
  "upsertNode n g =
     (if has_node g (nid n)
      then g\<lparr>kg_nodes := map (\<lambda>m. if nid m = nid n then n else m) (kg_nodes g)\<rparr>
      else g\<lparr>kg_nodes := kg_nodes g @ [n]\<rparr>)"

text \<open>
  Modelled from the spec: the identity of an edge for upsert, the tuple (source, target,
  type).
\<close>

definition edge_key :: "Edge \<Rightarrow> string \<times> string \<times> string" where
  "edge_key e = (source e, target e, etype e)"

text \<open>Modelled from the spec: whether an edge with this identity is stored.\<close>

definition has_edge :: "KnowledgeGraph \<Rightarrow> string \<times> string \<times> string \<Rightarrow> bool" where
  "has_edge g k = (k \<in> set (map edge_key (kg_edges g)))"

text \<open>
  Modelled from the spec: \<open>upsertEdge(edge)\<close> of section 4.1, insert or replace by
  (source, target, type); \<open>DanglingReferenceError\<close> when an endpoint is not in the node
  set.
\<close>

definition upsertEdge :: "Edge \<Rightarrow> KnowledgeGraph \<Rightarrow> error + KnowledgeGraph" where
  "upsertEdge e g =
     (if \<not> has_node g (source e) \<or> \<not> has_node g (target e) then Inl DanglingReferenceError
      else if has_edge g (edge_key e)
      then Inr (g\<lparr>kg_edges := map (\<lambda>x. if edge_key x = edge_key e then e else x) (kg_edges g)\<rparr>)
      else Inr (g\<lparr>kg_edges := kg_edges g @ [e]\<rparr>))"

text \<open>
  Modelled from the spec: what the merge gate returns (section 4.2): the counts of nodes
  and edges added and updated, and the dropped edges with their reasons.
\<close>

record merge_report =
  nodes_added :: nat
  nodes_updated :: nat
  edges_added :: nat
  edges_updated :: nat
  edges_dropped :: "(Edge \<times> error) list"

text \<open>Modelled from the spec: the report before anything is applied.\<close>

definition empty_report :: merge_report where
  "empty_report =
     \<lparr>nodes_added = 0, nodes_updated = 0, edges_added = 0, edges_updated = 0,
      edges_dropped = []\<rparr>"

text \<open>Modelled from the spec: step (1) of the merge gate for one node of the batch.\<close>

definition merge_node ::
  "Node \<Rightarrow> KnowledgeGraph \<times> merge_report \<Rightarrow> KnowledgeGraph \<times> merge_report" where
  "merge_node n gr =
     (upsertNode n (fst gr),
      if has_node (fst gr) (nid n)
      then (snd gr)\<lparr>nodes_updated := Suc (nodes_updated (snd gr))\<rparr>
      else (snd gr)\<lparr>nodes_added := Suc (nodes_added (snd gr))\<rparr>)"

text \<open>
  Modelled from the spec: steps (2) and (3) of the merge gate for one edge of the batch;
  an edge with a missing endpoint is dropped and recorded, and the batch goes on.
\<close>

definition merge_edge ::
  "Edge \<Rightarrow> KnowledgeGraph \<times> merge_report \<Rightarrow> KnowledgeGraph \<times> merge_report" where
  "merge_edge e gr =
     (case upsertEdge e (fst gr) of
        Inl err \<Rightarrow> (fst gr, (snd gr)\<lparr>edges_dropped := edges_dropped (snd gr) @ [(e, err)]\<rparr>)
      | Inr g' \<Rightarrow>
          (g', if has_edge (fst gr) (edge_key e)
               then (snd gr)\<lparr>edges_updated := Suc (edges_updated (snd gr))\<rparr>
               else (snd gr)\<lparr>edges_added := Suc (edges_added (snd gr))\<rparr>))"

text \<open>
  Modelled from the spec: the merge gate, \<open>storage.merge_graph()\<close> of the deployment
  guide: every node of the batch is upserted first, then every edge; nothing else is
  touched.
\<close>

definition merge_graph ::
  "KnowledgeGraph \<Rightarrow> Node list \<Rightarrow> Edge list \<Rightarrow> KnowledgeGraph \<times> merge_report" where
  "merge_graph g batch_nodes batch_edges =
     fold merge_edge batch_edges (fold merge_node batch_nodes (g, empty_report))"

text \<open>
  Modelled from the spec: the graph invariants of section 3: no two nodes share an id, no
  two edges share (source, target, type), and both ends of every edge are nodes.
\<close>

definition wf_graph :: "KnowledgeGraph \<Rightarrow> bool" where
  "wf_graph g =
     (distinct (map nid (kg_nodes g)) \<and> distinct (map edge_key (kg_edges g)) \<and>
      list_all (\<lambda>e. has_node g (source e) \<and> has_node g (target e)) (kg_edges g))"

subsection \<open>The breadth-first primitive\<close>

text \<open>Modelled from the spec: the direction argument of \<open>bfsFrontier\<close>.\<close>

datatype direction = Outgoing | Incoming

text \<open>
  Modelled from the spec: whether an edge is incident on a node in the direction of the
  traversal and passes the edge type filter (no filter: every type).
\<close>

definition follows :: "direction \<Rightarrow> string list option \<Rightarrow> string \<Rightarrow> Edge \<Rightarrow> bool" where
  "follows dir edgeTypeFilter n e =
     ((case dir of Outgoing \<Rightarrow> source e = n | Incoming \<Rightarrow> target e = n) \<and>
      (case edgeTypeFilter of None \<Rightarrow> True | Some ts \<Rightarrow> etype e \<in> set ts))"

text \<open>
  Modelled from the spec: the neighbours that the expansion of a node looks at, one for
  each edge followed, in the order of the edges.
\<close>

definition neighbours ::
  "KnowledgeGraph \<Rightarrow> direction \<Rightarrow> string list option \<Rightarrow> string \<Rightarrow> string list" where
  "neighbours g dir edgeTypeFilter n =
     map (\<lambda>e. case dir of Outgoing \<Rightarrow> target e | Incoming \<Rightarrow> source e)
       (filter (follows dir edgeTypeFilter n) (kg_edges g))"

text \<open>
  Modelled from the spec: the \<open>visited\<close> set (node id to the depth at which it was
  reached) and the FIFO queue of (node id, depth), both as lists in insertion order.
\<close>

type_synonym marks = "(string \<times> nat) list"

text \<open>
  Modelled from the spec: enqueue the neighbour at the given depth if not already
  visited, marking it visited at once.
\<close>

fun enqueue :: "nat \<Rightarrow> string \<Rightarrow> marks \<times> marks \<Rightarrow> marks \<times> marks" where
  "enqueue d m (vis, q) =
     (if m \<in> fst ` set vis then (vis, q) else (vis @ [(m, d)], q @ [(m, d)]))"

text \<open>
  Modelled from the spec: the expansion of a node popped at depth \<open>d\<close>: each neighbour is
  enqueued at depth \<open>d + 1\<close>.
\<close>

definition expand ::
  "KnowledgeGraph \<Rightarrow> direction \<Rightarrow> string list option \<Rightarrow> string \<Rightarrow> nat \<Rightarrow>
   marks \<times> marks \<Rightarrow> marks \<times> marks" where
  "expand g dir edgeTypeFilter n d vq =
     fold (enqueue (Suc d)) (neighbours g dir edgeTypeFilter n) vq"

text \<open>
  Modelled from the spec: the result of the primitive, the visited marks. The nodes that
  were expanded are recorded beside them, in order, so that "expanded at most once" can be
  stated; nothing reads this list during the traversal.
\<close>

record traversal =
  visited :: marks
  expanded :: "string list"

text \<open>
  The ids that occur in the edges, and the number of them not yet visited: with the length
  of the queue this is what decreases in every round of the loop.
\<close>

definition graph_ids :: "KnowledgeGraph \<Rightarrow> string set" where
  "graph_ids g = set (map source (kg_edges g)) \<union> set (map target (kg_edges g))"

definition unseen :: "KnowledgeGraph \<Rightarrow> marks \<Rightarrow> nat" where
  "unseen g vis = card (graph_ids g - fst ` set vis)"

lemma fold_enqueue_shape:
  "\<exists>new. fold (enqueue d) ms (vis, q) = (vis @ new, q @ new)
         \<and> distinct (map fst new)
         \<and> fst ` set new \<inter> fst ` set vis = {}
         \<and> fst ` set new \<subseteq> set ms
         \<and> snd ` set new \<subseteq> {d}"
proof (induction ms arbitrary: vis q)
  case Nil
  show ?case by (rule exI [of _ "[]"]) simp
next
  case (Cons m ms)
  show ?case
  proof (cases "m \<in> fst ` set vis")
    case True
    from Cons.IH [of vis q] obtain new where
      "fold (enqueue d) ms (vis, q) = (vis @ new, q @ new)" "distinct (map fst new)"
      "fst ` set new \<inter> fst ` set vis = {}" "fst ` set new \<subseteq> set ms" "snd ` set new \<subseteq> {d}"
      by blast
    with True show ?thesis by (intro exI [of _ new]) auto
  next
    case False
    from Cons.IH [of "vis @ [(m, d)]" "q @ [(m, d)]"] obtain new where
      "fold (enqueue d) ms (vis @ [(m, d)], q @ [(m, d)])
         = ((vis @ [(m, d)]) @ new, (q @ [(m, d)]) @ new)"
      "distinct (map fst new)"
      "fst ` set new \<inter> fst ` set (vis @ [(m, d)]) = {}"
      "fst ` set new \<subseteq> set ms" "snd ` set new \<subseteq> {d}"
      by blast
    with False show ?thesis by (intro exI [of _ "(m, d) # new"]) auto
  qed
qed

lemma neighbours_graph_ids: "set (neighbours g dir f n) \<subseteq> graph_ids g"
  by (auto simp: neighbours_def graph_ids_def split: direction.splits)

lemma expand_shape:
  "\<exists>new. expand g dir f n d (vis, q) = (vis @ new, q @ new)
         \<and> distinct (map fst new)
         \<and> fst ` set new \<inter> fst ` set vis = {}
         \<and> fst ` set new \<subseteq> set (neighbours g dir f n)
         \<and> snd ` set new \<subseteq> {Suc d}"
  unfolding expand_def by (rule fold_enqueue_shape)

lemma expand_measure:
  assumes "expand g dir f n d (vis, q) = (vis', q')"
  shows "unseen g vis' + length q' = unseen g vis + length q"
proof -
  from expand_shape [of g dir f n d vis q] assms obtain new where
    v: "vis' = vis @ new" and q: "q' = q @ new" and d: "distinct (map fst new)"
    and dj: "fst ` set new \<inter> fst ` set vis = {}"
    and sub: "fst ` set new \<subseteq> set (neighbours g dir f n)"
    by auto
  let ?V = "graph_ids g" and ?K = "fst ` set vis" and ?N = "fst ` set new"
  have fin: "finite ?V" by (simp add: graph_ids_def)
  have NV: "?N \<subseteq> ?V - ?K" using sub dj neighbours_graph_ids [of g dir f n] by blast
  have "?V - fst ` set vis' = (?V - ?K) - ?N" using v by auto
  then have "card (?V - fst ` set vis') = card (?V - ?K) - card ?N"
    using NV fin by (simp add: card_Diff_subset finite_subset)
  moreover have "card ?N \<le> card (?V - ?K)" using NV fin by (simp add: card_mono)
  moreover have "card ?N = length new" using d by (metis distinct_card length_map set_map)
  ultimately show ?thesis using q by (simp add: unseen_def)
qed

text \<open>
  Modelled from the spec: the loop of \<open>bfsFrontier\<close>: pop the front of the queue; a node
  popped at a depth that is not below \<open>maxDepth\<close> is not expanded (it stays in
  \<open>visited\<close>); any other node is expanded.
\<close>

function bfs_loop ::
  "KnowledgeGraph \<Rightarrow> direction \<Rightarrow> string list option \<Rightarrow> nat \<Rightarrow> marks \<Rightarrow> marks \<Rightarrow>
   string list \<Rightarrow> traversal" where
  "bfs_loop g dir f maxDepth [] vis ex = \<lparr>visited = vis, expanded = ex\<rparr>"
| "bfs_loop g dir f maxDepth ((n, d) # q) vis ex =
     (if d \<ge> maxDepth then bfs_loop g dir f maxDepth q vis ex
      else (case expand g dir f n d (vis, q) of
              (vis', q') \<Rightarrow> bfs_loop g dir f maxDepth q' vis' (ex @ [n])))"
  by pat_completeness auto
termination
  apply (relation "measure (\<lambda>(g, dir, f, maxDepth, q, vis, ex). unseen g vis + length q)")
    apply simp
   apply simp
  subgoal premises p
    using expand_measure [OF p(2) [symmetric]] by simp
  done

text \<open>
  Modelled from the spec: \<open>bfsFrontier(startId, direction, edgeTypeFilter, maxDepth)\<close>: the
  start node is enqueued at depth 0 and marked visited before the loop starts.
\<close>

definition bfsFrontier ::
  "KnowledgeGraph \<Rightarrow> string \<Rightarrow> direction \<Rightarrow> string list option \<Rightarrow> nat \<Rightarrow> traversal" where
  "bfsFrontier g startId dir edgeTypeFilter maxDepth =
     bfs_loop g dir edgeTypeFilter maxDepth [(startId, 0)] [(startId, 0)] []"

subsection \<open>The query operations\<close>

text \<open>
  Modelled from the spec: the part that \<open>downstream\<close> and \<open>upstream\<close> share: a negative
  \<open>maxDepth\<close> is \<open>InvalidArgument\<close>, an unknown start id is \<open>NotFound\<close>, and the result is
  the visited ids in the order they were reached, without the start node.
\<close>

definition traverse ::
  "KnowledgeGraph \<Rightarrow> direction \<Rightarrow> string \<Rightarrow> int \<Rightarrow> string list option \<Rightarrow> error + string list" where
  "traverse g dir i maxDepth edgeTypes =
     (if maxDepth < 0 then Inl InvalidArgument
      else if \<not> has_node g i then Inl NotFound
      else Inr (filter (\<lambda>n. n \<noteq> i)
                  (map fst (visited (bfsFrontier g i dir edgeTypes (nat maxDepth))))))"

text \<open>
  Modelled from the spec: \<open>downstream(id, maxDepth, edgeTypes)\<close>, outgoing edges,
  \<open>maxDepth\<close> 10 unless the caller gives one.
\<close>

definition downstream ::
  "KnowledgeGraph \<Rightarrow> string \<Rightarrow> int option \<Rightarrow> string list option \<Rightarrow> error + string list" where
  "downstream g i maxDepth edgeTypes =
     traverse g Outgoing i (case maxDepth of None \<Rightarrow> 10 | Some d \<Rightarrow> d) edgeTypes"

text \<open>
  Modelled from the spec: \<open>upstream(id, maxDepth, edgeTypes)\<close>, the same with incoming
  edges.
\<close>

definition upstream ::
  "KnowledgeGraph \<Rightarrow> string \<Rightarrow> int option \<Rightarrow> string list option \<Rightarrow> error + string list" where
  "upstream g i maxDepth edgeTypes =
     traverse g Incoming i (case maxDepth of None \<Rightarrow> 10 | Some d \<Rightarrow> d) edgeTypes"

text \<open>Modelled from the spec: the result of \<open>getOwner\<close>, a team or the explicit "unowned".\<close>

datatype owner_result = OwnedBy string | Unowned

text \<open>
  Modelled from the spec: \<open>getOwner(id)\<close>: the source of an incoming \<open>owns\<close> edge, else the
  \<open>owner\<close> or the \<open>team\<close> property of the node itself, else "unowned".
\<close>

definition getOwner :: "KnowledgeGraph \<Rightarrow> string \<Rightarrow> error + owner_result" where
  "getOwner g i =
     (case getNode g i of
        Inl e \<Rightarrow> Inl e
      | Inr n \<Rightarrow>
          (case filter (\<lambda>e. target e = i \<and> etype e = ''owns'') (kg_edges g) of
             e # _ \<Rightarrow> Inr (OwnedBy (source e))
           | [] \<Rightarrow>
               (case map_of (nprops n) ''owner'' of
                  Some (PStr t) \<Rightarrow> Inr (OwnedBy t)
                | _ \<Rightarrow>
                    (case map_of (nprops n) ''team'' of
                       Some (PStr t) \<Rightarrow> Inr (OwnedBy t)
                     | _ \<Rightarrow> Inr Unowned))))"

text \<open>Modelled from the spec: the distinct owning teams among a list of nodes.\<close>

definition owning_teams :: "KnowledgeGraph \<Rightarrow> string list \<Rightarrow> string list" where
  "owning_teams g xs =
     remdups (concat (map (\<lambda>i. case getOwner g i of Inr (OwnedBy t) \<Rightarrow> [t] | _ \<Rightarrow> []) xs))"

text \<open>
  Modelled from the spec: the severity bands of \<open>blastRadius\<close>. The spec leaves the marks
  open ("configurable"), so they are parameters here.
\<close>

datatype severity_band = LOW | MEDIUM | HIGH

record severity_config =
  high_nodes :: nat
  high_teams :: nat
  medium_nodes :: nat
  medium_teams :: nat

text \<open>
  Modelled from the spec: the classification: \<open>LOW\<close> for an empty affected set, \<open>HIGH\<close>
  above a high-water mark of nodes or teams, \<open>MEDIUM\<close> for the band below it.
\<close>

definition classify :: "severity_config \<Rightarrow> nat \<Rightarrow> nat \<Rightarrow> severity_band" where
  "classify cfg n t =
     (if n = 0 then LOW
      else if n > high_nodes cfg \<or> t > high_teams cfg then HIGH
      else if n > medium_nodes cfg \<or> t > medium_teams cfg then MEDIUM
      else LOW)"

text \<open>Modelled from the spec: the result of \<open>blastRadius\<close>.\<close>

record blast_radius =
  br_affected :: "string list"
  br_count :: nat
  br_teams :: nat
  br_severity :: severity_band

text \<open>
  Modelled from the spec: \<open>blastRadius(id, maxDepth=5)\<close>: \<open>upstream\<close> with the default
  depth 5, then the count of affected nodes, the count of distinct owning teams among
  them, and the severity.
\<close>

definition blastRadius ::
  "severity_config \<Rightarrow> KnowledgeGraph \<Rightarrow> string \<Rightarrow> int option \<Rightarrow> error + blast_radius" where
  "blastRadius cfg g i maxDepth =
     (case upstream g i (Some (case maxDepth of None \<Rightarrow> 5 | Some d \<Rightarrow> d)) None of
        Inl e \<Rightarrow> Inl e
      | Inr xs \<Rightarrow>
          Inr \<lparr>br_affected = xs, br_count = length xs,
               br_teams = length (owning_teams g xs),
               br_severity = classify cfg (length xs) (length (owning_teams g xs))\<rparr>)"

subsection \<open>Graph shapes used by the properties\<close>

text \<open>
  A walk of \<open>k\<close> edges from \<open>s\<close>, following the edges the traversal follows.
\<close>

inductive walk ::
  "KnowledgeGraph \<Rightarrow> direction \<Rightarrow> string list option \<Rightarrow> string \<Rightarrow> nat \<Rightarrow> string \<Rightarrow> bool"
  for g dir f s where
    walk_start: "walk g dir f s 0 s"
  | walk_step:
      "walk g dir f s k n \<Longrightarrow> m \<in> set (neighbours g dir f n) \<Longrightarrow> walk g dir f s (Suc k) m"

text \<open>
  A simple path \<open>start \<rightarrow> chain!0 \<rightarrow> chain!1 \<rightarrow> \<dots>\<close> in which every node has the next one
  as its only successor.
\<close>

definition simple_path :: "KnowledgeGraph \<Rightarrow> string \<Rightarrow> string list \<Rightarrow> bool" where
  "simple_path g start chain =
     (distinct (start # chain) \<and> has_node g start \<and>
      list_all (\<lambda>(u, v). neighbours g Outgoing None u = [v]) (zip (start # chain) chain))"

text \<open>A linear chain hanging off \<open>start\<close>: the last node has no successor.\<close>

definition linear_chain :: "KnowledgeGraph \<Rightarrow> string \<Rightarrow> string list \<Rightarrow> bool" where
  "linear_chain g start chain =
     (simple_path g start chain \<and> neighbours g Outgoing None (last (start # chain)) = [])"

text \<open>A cycle through \<open>start\<close>: the last node leads back to \<open>start\<close>.\<close>

definition cycle :: "KnowledgeGraph \<Rightarrow> string \<Rightarrow> string list \<Rightarrow> bool" where
  "cycle g start chain =
     (simple_path g start chain \<and> neighbours g Outgoing None (last (start # chain)) = [start])"

text \<open>The graphs of the examples: nodes and \<open>depends_on\<close> edges from ids.\<close>

definition service :: "string \<Rightarrow> Node" where
  "service i = \<lparr>nid = i, name = i, ntype = ''service'', nprops = []\<rparr>"

definition depends_on :: "string \<Rightarrow> string \<Rightarrow> Edge" where
  "depends_on s t = \<lparr>source = s, target = t, etype = ''depends_on'', eprops = []\<rparr>"

definition cycle_ABC :: KnowledgeGraph where
  "cycle_ABC =
     \<lparr>kg_nodes = [service ''A'', service ''B'', service ''C''],
      kg_edges = [depends_on ''A'' ''B'', depends_on ''B'' ''C'', depends_on ''C'' ''A'']\<rparr>"

definition chain_graph :: "string list \<Rightarrow> KnowledgeGraph" where
  "chain_graph ids = \<lparr>kg_nodes = map service ids, kg_edges = map2 depends_on ids (tl ids)\<rparr>"

definition orders_graph :: KnowledgeGraph where
  "orders_graph =
     \<lparr>kg_nodes = [service ''service:api'', service ''service:orders''],
      kg_edges = [depends_on ''service:api'' ''service:orders'']\<rparr>"

definition sample_json :: graph_json where
  "sample_json =
     \<lparr>json_nodes = Some
        [\<lparr>node_id = ''service:api'', node_name = ''api'', node_type = ''service'',
          node_team = Some ''platform''\<rparr>,
         \<lparr>node_id = ''service:orders'', node_name = ''Orders'', node_type = ''service'',
          node_team = None\<rparr>,
         \<lparr>node_id = ''database:orders-db'', node_name = ''orders-db'', node_type = ''database'',
          node_team = None\<rparr>],
      json_edges = Some
        [\<lparr>e_source = ''service:api'', e_target = ''service:orders'', e_type = ''depends_on''\<rparr>,
         \<lparr>e_source = ''service:orders'', e_target = ''database:orders-db'', e_type = ''depends_on''\<rparr>,
         \<lparr>e_source = ''service:orders'', e_target = ''cache:gone'', e_type = ''depends_on''\<rparr>]\<rparr>"

definition example_graph :: KnowledgeGraph where
  "example_graph =
     \<lparr>kg_nodes =
        [service ''service:api'', service ''service:orders'',
         \<lparr>nid = ''database:orders-db'', name = ''orders-db'', ntype = ''database'', nprops = []\<rparr>,
         \<lparr>nid = ''team:payments'', name = ''payments'', ntype = ''team'', nprops = []\<rparr>],
      kg_edges =
        [depends_on ''service:api'' ''service:orders'',
         depends_on ''service:orders'' ''database:orders-db'',
         \<lparr>source = ''team:payments'', target = ''service:orders'', etype = ''owns'',
          eprops = []\<rparr>]\<rparr>"

definition example_config :: severity_config where
  "example_config = \<lparr>high_nodes = 10, high_teams = 3, medium_nodes = 3, medium_teams = 1\<rparr>"

definition no_impact_response :: response_obj where
  "no_impact_response =
     \<lparr>c_type = Some ''blast_radius'', c_error = None, c_suggestion = None, c_message = None,
      c_details = None, service_analyzed = Some ''service:api'',
      affected_services_count = Some 0, affected_services = Some [], team_details = None,
      teams_count = Some 0, severity = Some ''LOW''\<rparr>"

definition impact_response :: response_obj where
  "impact_response =
     \<lparr>c_type = Some ''blast_radius'', c_error = None, c_suggestion = None, c_message = None,
      c_details = None, service_analyzed = Some ''database:orders-db'',
      affected_services_count = Some 2, affected_services = Some [''service:orders'', ''api''],
      team_details = None, teams_count = Some 1, severity = Some ''LOW''\<rparr>"

section \<open>Properties\<close>

subsection \<open>Upsert\<close>

lemma replace_absent: "k \<notin> set (map key xs) \<Longrightarrow> map (\<lambda>x. if key x = k then y else x) xs = xs"
  by (induction xs) auto

lemma replace_keys: "key y = k \<Longrightarrow> map key (map (\<lambda>x. if key x = k then y else x) xs) = map key xs"
  by (induction xs) auto

lemma replace_keys_comp: "key y = k \<Longrightarrow> map (key \<circ> (\<lambda>x. if key x = k then y else x)) xs = map key xs"
  using replace_keys [of key y k xs] by simp

lemma filter_key_absent: "k \<notin> set (map key xs) \<Longrightarrow> filter (\<lambda>x. key x = k) xs = []"
  by (induction xs) auto

lemma replace_twice:
  "map (\<lambda>x. if key x = k then z else x) (map (\<lambda>x. if key x = k then y else x) xs)
     = map (\<lambda>x. if key x = k then z else x) xs" if "key y = k"
  using that by (induction xs) auto

lemma filter_replace_one:
  "distinct (map key xs) \<Longrightarrow> k \<in> set (map key xs) \<Longrightarrow> key y = k \<Longrightarrow>
   filter (\<lambda>x. key x = k) (map (\<lambda>x. if key x = k then y else x) xs) = [y]"
proof (induction xs)
  case Nil
  then show ?case by simp
next
  case (Cons x xs)
  show ?case
  proof (cases "key x = k")
    case True
    then have "k \<notin> set (map key xs)" using Cons.prems(1) by auto
    then have "filter (\<lambda>x. key x = k) xs = []" by (auto simp: filter_empty_conv)
    moreover have "map (\<lambda>x. if key x = k then y else x) xs = xs"
      using \<open>k \<notin> set (map key xs)\<close> by (rule replace_absent)
    ultimately show ?thesis using True Cons.prems(3) by simp
  next
    case False
    then show ?thesis using Cons by auto
  qed
qed

lemma filter_append_one:
  "k \<notin> set (map key xs) \<Longrightarrow> key y = k \<Longrightarrow> filter (\<lambda>x. key x = k) (xs @ [y]) = [y]"
  using filter_key_absent [of k key xs] by simp

lemma filter_replace_frame:
  "k \<in> S \<Longrightarrow> key y = k \<Longrightarrow>
   filter (\<lambda>x. key x \<notin> S) (map (\<lambda>x. if key x = k then y else x) xs) = filter (\<lambda>x. key x \<notin> S) xs"
  by (induction xs) auto

lemma has_node_upsertNode: "has_node (upsertNode n g) i = (has_node g i \<or> i = nid n)"
  by (auto simp: has_node_def upsertNode_def replace_keys)

lemma upsertNode_last_write:
  assumes "nid n' = nid n"
  shows "upsertNode n' (upsertNode n g) = upsertNode n' g"
proof (cases "has_node g (nid n)")
  case True
  then have "has_node (upsertNode n g) (nid n')" using assms by (simp add: has_node_upsertNode)
  then show ?thesis using True assms
    by (simp add: upsertNode_def replace_twice [where key = nid])
next
  case False
  then have "map (\<lambda>m. if nid m = nid n then n' else m) (kg_nodes g) = kg_nodes g"
    by (intro replace_absent) (simp add: has_node_def)
  then show ?thesis using False assms by (simp add: upsertNode_def has_node_def)
qed

lemma upsertNode_one_copy:
  assumes "distinct (map nid (kg_nodes g))"
  shows "filter (\<lambda>m. nid m = nid n) (kg_nodes (upsertNode n g)) = [n]"
proof (cases "has_node g (nid n)")
  case True
  then have "nid n \<in> set (map nid (kg_nodes g))" by (simp add: has_node_def)
  from filter_replace_one [OF assms this refl] True show ?thesis
    by (simp add: upsertNode_def)
next
  case False
  then have "nid n \<notin> set (map nid (kg_nodes g))" by (simp add: has_node_def)
  from filter_append_one [OF this refl] False show ?thesis
    by (simp add: upsertNode_def)
qed

lemma upsertNode_edges: "kg_edges (upsertNode n g) = kg_edges g"
  by (simp add: upsertNode_def)

lemma upsertNode_ids: "set (map nid (kg_nodes (upsertNode n g))) = insert (nid n) (set (map nid (kg_nodes g)))"
  using has_node_upsertNode [of n g] by (auto simp: has_node_def)

lemma upsertNode_keys:
  "map nid (kg_nodes (upsertNode n g))
     = (if has_node g (nid n) then map nid (kg_nodes g) else map nid (kg_nodes g) @ [nid n])"
  by (simp add: upsertNode_def replace_keys_comp)

lemma upsertNode_wf: "wf_graph g \<Longrightarrow> wf_graph (upsertNode n g)"
  unfolding wf_graph_def
  by (auto simp: has_node_upsertNode upsertNode_edges upsertNode_keys list_all_iff has_node_def)

lemma upsertEdge_nodes: "upsertEdge e g = Inr g1 \<Longrightarrow> kg_nodes g1 = kg_nodes g"
  by (auto simp: upsertEdge_def split: if_splits)

lemma upsertEdge_has_node: "upsertEdge e g = Inr g1 \<Longrightarrow> has_node g1 i = has_node g i"
  by (simp add: has_node_def upsertEdge_nodes)

lemma upsertEdge_keys:
  "upsertEdge e g = Inr g1 \<Longrightarrow>
   map edge_key (kg_edges g1)
     = (if has_edge g (edge_key e) then map edge_key (kg_edges g)
        else map edge_key (kg_edges g) @ [edge_key e])"
  by (auto simp: upsertEdge_def replace_keys_comp split: if_splits)

lemma upsertEdge_has_edge: "upsertEdge e g = Inr g1 \<Longrightarrow> has_edge g1 k = (has_edge g k \<or> k = edge_key e)"
  using upsertEdge_keys [of e g g1] by (auto simp: has_edge_def split: if_splits)

lemma upsertEdge_last_write:
  assumes "upsertEdge e g = Inr g1" and "edge_key e' = edge_key e"
  shows "upsertEdge e' g1 = upsertEdge e' g"
proof -
  from assms(2) have st: "source e' = source e" "target e' = target e"
    by (auto simp: edge_key_def)
  from assms(1) have hn: "has_node g (source e)" "has_node g (target e)"
    by (auto simp: upsertEdge_def split: if_splits)
  have n1: "kg_nodes g1 = kg_nodes g" using assms(1) by (rule upsertEdge_nodes)
  then have hn1: "has_node g1 (source e)" "has_node g1 (target e)" using hn by (auto simp: has_node_def)
  have he1: "has_edge g1 (edge_key e)" using upsertEdge_has_edge [OF assms(1)] by simp
  show ?thesis
  proof (cases "has_edge g (edge_key e)")
    case True
    then have "g1 = g\<lparr>kg_edges := map (\<lambda>x. if edge_key x = edge_key e then e else x) (kg_edges g)\<rparr>"
      using assms(1) hn by (simp add: upsertEdge_def)
    then show ?thesis using True he1 hn hn1 st assms(2)
      by (simp add: upsertEdge_def replace_twice [where key = edge_key])
  next
    case False
    then have g1: "g1 = g\<lparr>kg_edges := kg_edges g @ [e]\<rparr>"
      using assms(1) hn by (simp add: upsertEdge_def)
    have "map (\<lambda>x. if edge_key x = edge_key e then e' else x) (kg_edges g) = kg_edges g"
      using False by (intro replace_absent) (simp add: has_edge_def)
    then show ?thesis using False he1 hn hn1 st assms(2) g1
      by (simp add: upsertEdge_def)
  qed
qed

lemma upsertEdge_one_copy:
  assumes d: "distinct (map edge_key (kg_edges g))" and u: "upsertEdge e g = Inr g1"
  shows "filter (\<lambda>x. edge_key x = edge_key e) (kg_edges g1) = [e]"
proof (cases "has_edge g (edge_key e)")
  case True
  then have "edge_key e \<in> set (map edge_key (kg_edges g))" by (simp add: has_edge_def)
  from filter_replace_one [OF d this refl] True u show ?thesis
    by (auto simp: upsertEdge_def split: if_splits)
next
  case False
  then have "edge_key e \<notin> set (map edge_key (kg_edges g))" by (simp add: has_edge_def)
  from filter_append_one [OF this refl] False u show ?thesis
    by (auto simp: upsertEdge_def split: if_splits)
qed

lemma upsertEdge_endpoints:
  "upsertEdge e g = Inr g1 \<Longrightarrow> x \<in> set (kg_edges g1) \<Longrightarrow> x \<in> set (kg_edges g) \<or> x = e"
  by (auto simp: upsertEdge_def split: if_splits)

lemma upsertEdge_wf:
  assumes w: "wf_graph g" and u: "upsertEdge e g = Inr g1"
  shows "wf_graph g1"
proof -
  have hn: "has_node g (source e)" "has_node g (target e)"
    using u by (auto simp: upsertEdge_def split: if_splits)
  have 1: "distinct (map nid (kg_nodes g1))"
    using w upsertEdge_nodes [OF u] by (simp add: wf_graph_def)
  have 2: "distinct (map edge_key (kg_edges g1))"
    using w upsertEdge_keys [OF u] by (auto simp: wf_graph_def has_edge_def)
  have 3: "list_all (\<lambda>e. has_node g1 (source e) \<and> has_node g1 (target e)) (kg_edges g1)"
    unfolding list_all_iff
  proof
    fix x assume "x \<in> set (kg_edges g1)"
    then have "x \<in> set (kg_edges g) \<or> x = e" using u by (rule upsertEdge_endpoints [rotated])
    then show "has_node g1 (source x) \<and> has_node g1 (target x)"
      using w hn by (auto simp: wf_graph_def list_all_iff upsertEdge_has_node [OF u])
  qed
  show ?thesis unfolding wf_graph_def using 1 2 3 by blast
qed

lemma upsertEdge_succeeds:
  "has_node g (source e) \<Longrightarrow> has_node g (target e) \<Longrightarrow> \<exists>g1. upsertEdge e g = Inr g1"
  by (simp add: upsertEdge_def)

text \<open>
  C3 (on the storage modelled from the spec). Upserting a node twice gives the same graph
  as upserting it once, with exactly one node of that id, equal to what was written; a
  second write under the same id replaces the first whole (the result is the same as
  writing the second alone). The same holds for an edge under its key (source, target,
  type), whenever the edge upsert succeeds. Node upserts keep the edges, edge upserts keep
  the nodes.
\<close>

theorem upsert_idempotent:
  "wf_graph g \<Longrightarrow>
   upsertNode n (upsertNode n g) = upsertNode n g
   \<and> filter (\<lambda>m. nid m = nid n) (kg_nodes (upsertNode n g)) = [n]
   \<and> kg_edges (upsertNode n g) = kg_edges g
   \<and> (nid n' = nid n \<longrightarrow> upsertNode n' (upsertNode n g) = upsertNode n' g)
   \<and> (\<forall>g1. upsertEdge e g = Inr g1 \<longrightarrow>
         upsertEdge e g1 = Inr g1
         \<and> filter (\<lambda>x. edge_key x = edge_key e) (kg_edges g1) = [e]
         \<and> kg_nodes g1 = kg_nodes g
         \<and> (edge_key e' = edge_key e \<longrightarrow> upsertEdge e' g1 = upsertEdge e' g))"
proof -
  assume w: "wf_graph g"
  then have dn: "distinct (map nid (kg_nodes g))" and de: "distinct (map edge_key (kg_edges g))"
    by (simp_all add: wf_graph_def)
  have 1: "upsertNode n (upsertNode n g) = upsertNode n g"
    by (rule upsertNode_last_write) simp
  have 2: "filter (\<lambda>m. nid m = nid n) (kg_nodes (upsertNode n g)) = [n]"
    using dn by (rule upsertNode_one_copy)
  have 3: "kg_edges (upsertNode n g) = kg_edges g"
    by (rule upsertNode_edges)
  have 4: "nid n' = nid n \<longrightarrow> upsertNode n' (upsertNode n g) = upsertNode n' g"
    by (simp add: upsertNode_last_write)
  have 5: "upsertEdge e g1 = Inr g1
         \<and> filter (\<lambda>x. edge_key x = edge_key e) (kg_edges g1) = [e]
         \<and> kg_nodes g1 = kg_nodes g
         \<and> (edge_key e' = edge_key e \<longrightarrow> upsertEdge e' g1 = upsertEdge e' g)"
    if u: "upsertEdge e g = Inr g1" for g1
  proof (intro conjI impI)
    have "upsertEdge e g1 = upsertEdge e g" using u by (rule upsertEdge_last_write) simp
    then show "upsertEdge e g1 = Inr g1" using u by (rule trans)
    show "filter (\<lambda>x. edge_key x = edge_key e) (kg_edges g1) = [e]"
      using de u by (rule upsertEdge_one_copy)
    show "kg_nodes g1 = kg_nodes g" using u by (rule upsertEdge_nodes)
    show "upsertEdge e' g1 = upsertEdge e' g" if "edge_key e' = edge_key e"
      using u that by (rule upsertEdge_last_write)
  qed
  from 1 2 3 4 5 show ?thesis by (intro conjI allI impI) (simp_all only:)
qed

theorem upsert_idempotent_witness:
  "wf_graph orders_graph
   \<and> upsertNode (service ''service:api''\<lparr>nprops := [(''team'', PStr ''payments'')]\<rparr>)
        (upsertNode (service ''service:api'') orders_graph)
      = \<lparr>kg_nodes = [service ''service:api''\<lparr>nprops := [(''team'', PStr ''payments'')]\<rparr>,
                      service ''service:orders''],
         kg_edges = [depends_on ''service:api'' ''service:orders'']\<rparr>
   \<and> upsertEdge (depends_on ''service:api'' ''service:orders'') orders_graph = Inr orders_graph
   \<and> filter (\<lambda>x. edge_key x = edge_key (depends_on ''service:api'' ''service:orders''))
         (kg_edges orders_graph) = [depends_on ''service:api'' ''service:orders'']"
proof -
  let ?n0 = "service ''service:api''"
  let ?n1 = "service ''service:api''\<lparr>nprops := [(''team'', PStr ''payments'')]\<rparr>"
  let ?e = "depends_on ''service:api'' ''service:orders''"
  have w: "wf_graph orders_graph"
    by (simp add: wf_graph_def orders_graph_def service_def depends_on_def edge_key_def
          has_node_def)
  have u: "upsertEdge ?e orders_graph = Inr orders_graph"
    by (simp add: upsertEdge_def orders_graph_def service_def depends_on_def edge_key_def
          has_node_def has_edge_def)
  have n: "nid ?n1 = nid ?n0"
    by (simp add: service_def)
  have r: "upsertNode ?n1 orders_graph
      = \<lparr>kg_nodes = [?n1, service ''service:orders''],
         kg_edges = [depends_on ''service:api'' ''service:orders'']\<rparr>"
    by (simp add: upsertNode_def orders_graph_def service_def has_node_def)
  note T = upsert_idempotent [OF w, of ?n0 ?n1 ?e ?e]
  from T n have a: "upsertNode ?n1 (upsertNode ?n0 orders_graph) = upsertNode ?n1 orders_graph"
    by blast
  from T u have b: "filter (\<lambda>x. edge_key x = edge_key ?e) (kg_edges orders_graph) = [?e]"
    by blast
  from w a [unfolded r] u b show ?thesis by (intro conjI)
qed

subsection \<open>The merge gate\<close>

lemma upsertNode_frame_nodes:
  "nid n \<in> S \<Longrightarrow>
   filter (\<lambda>m. nid m \<notin> S) (kg_nodes (upsertNode n g)) = filter (\<lambda>m. nid m \<notin> S) (kg_nodes g)"
  by (simp add: upsertNode_def filter_replace_frame [where key = nid])

lemma upsertEdge_frame_edges:
  "edge_key e \<in> S \<Longrightarrow> upsertEdge e g = Inr g1 \<Longrightarrow>
   filter (\<lambda>x. edge_key x \<notin> S) (kg_edges g1) = filter (\<lambda>x. edge_key x \<notin> S) (kg_edges g)"
  by (auto simp: upsertEdge_def filter_replace_frame [where key = edge_key] split: if_splits)

lemma merge_node_frame:
  "nid n \<in> S \<Longrightarrow>
   filter (\<lambda>m. nid m \<notin> S) (kg_nodes (fst (merge_node n gr))) = filter (\<lambda>m. nid m \<notin> S) (kg_nodes (fst gr))
   \<and> kg_edges (fst (merge_node n gr)) = kg_edges (fst gr)"
  by (simp add: merge_node_def upsertNode_frame_nodes upsertNode_edges)

lemma merge_edge_frame:
  "edge_key e \<in> S \<Longrightarrow>
   filter (\<lambda>x. edge_key x \<notin> S) (kg_edges (fst (merge_edge e gr))) = filter (\<lambda>x. edge_key x \<notin> S) (kg_edges (fst gr))
   \<and> kg_nodes (fst (merge_edge e gr)) = kg_nodes (fst gr)"
  by (auto simp: merge_edge_def upsertEdge_frame_edges upsertEdge_nodes split: sum.splits)

lemma fold_merge_node_frame:
  "set (map nid ns) \<subseteq> S \<Longrightarrow>
   filter (\<lambda>m. nid m \<notin> S) (kg_nodes (fst (fold merge_node ns gr))) = filter (\<lambda>m. nid m \<notin> S) (kg_nodes (fst gr))
   \<and> kg_edges (fst (fold merge_node ns gr)) = kg_edges (fst gr)"
proof (induction ns arbitrary: gr)
  case Nil
  then show ?case by simp
next
  case (Cons n ns)
  then have "nid n \<in> S" "set (map nid ns) \<subseteq> S" by auto
  then show ?case using Cons.IH [of "merge_node n gr"] merge_node_frame [of n S gr] by simp
qed

lemma fold_merge_edge_frame:
  "set (map edge_key es) \<subseteq> S \<Longrightarrow>
   filter (\<lambda>x. edge_key x \<notin> S) (kg_edges (fst (fold merge_edge es gr))) = filter (\<lambda>x. edge_key x \<notin> S) (kg_edges (fst gr))
   \<and> kg_nodes (fst (fold merge_edge es gr)) = kg_nodes (fst gr)"
proof (induction es arbitrary: gr)
  case Nil
  then show ?case by simp
next
  case (Cons e es)
  then have "edge_key e \<in> S" "set (map edge_key es) \<subseteq> S" by auto
  then show ?case using Cons.IH [of "merge_edge e gr"] merge_edge_frame [of e S gr] by simp
qed

lemma merge_graph_frame:
  "filter (\<lambda>m. nid m \<notin> set (map nid ns)) (kg_nodes (fst (merge_graph g ns es)))
     = filter (\<lambda>m. nid m \<notin> set (map nid ns)) (kg_nodes g)
   \<and> filter (\<lambda>x. edge_key x \<notin> set (map edge_key es)) (kg_edges (fst (merge_graph g ns es)))
     = filter (\<lambda>x. edge_key x \<notin> set (map edge_key es)) (kg_edges g)"
  using fold_merge_node_frame [of ns "set (map nid ns)" "(g, empty_report)"]
    fold_merge_edge_frame [of es "set (map edge_key es)" "fold merge_node ns (g, empty_report)"]
  by (simp add: merge_graph_def)

lemma find_filter: "(\<And>x. P x \<Longrightarrow> Q x) \<Longrightarrow> find P (filter Q xs) = find P xs"
  by (induction xs) auto

lemma filter_eq_mem:
  assumes "filter Q xs = filter Q ys" and "x \<in> set ys" and "Q x"
  shows "x \<in> set xs"
proof -
  have "x \<in> set (filter Q ys)" using assms(2,3) by simp
  then have "x \<in> set (filter Q xs)" using assms(1) by simp
  then show ?thesis by simp
qed

text \<open>
  C4 (on the merge gate modelled from the spec). After a batch is merged, the nodes whose
  id the batch does not mention, and the edges whose key it does not mention, are the same
  as before, in the same order: each of them is still in the graph, and looking up such a
  node gives the same node.
\<close>

theorem merge_graph_untouched:
  "merge_graph g batch_nodes batch_edges = (g', report) \<Longrightarrow>
   filter (\<lambda>m. nid m \<notin> set (map nid batch_nodes)) (kg_nodes g')
     = filter (\<lambda>m. nid m \<notin> set (map nid batch_nodes)) (kg_nodes g)
   \<and> filter (\<lambda>x. edge_key x \<notin> set (map edge_key batch_edges)) (kg_edges g')
     = filter (\<lambda>x. edge_key x \<notin> set (map edge_key batch_edges)) (kg_edges g)
   \<and> (\<forall>m \<in> set (kg_nodes g). nid m \<notin> set (map nid batch_nodes) \<longrightarrow>
         m \<in> set (kg_nodes g') \<and> getNode g' (nid m) = getNode g (nid m))
   \<and> (\<forall>x \<in> set (kg_edges g). edge_key x \<notin> set (map edge_key batch_edges) \<longrightarrow>
         x \<in> set (kg_edges g'))"
proof -
  assume m: "merge_graph g batch_nodes batch_edges = (g', report)"
  let ?N = "\<lambda>m. nid m \<notin> set (map nid batch_nodes)"
  let ?E = "\<lambda>x. edge_key x \<notin> set (map edge_key batch_edges)"
  from merge_graph_frame [of batch_nodes g batch_edges] m
  have fn: "filter ?N (kg_nodes g') = filter ?N (kg_nodes g)"
    and fe: "filter ?E (kg_edges g') = filter ?E (kg_edges g)"
    by simp_all
  have nodes: "m \<in> set (kg_nodes g') \<and> getNode g' (nid m) = getNode g (nid m)"
    if "m \<in> set (kg_nodes g)" "?N m" for m
  proof -
    have "m \<in> set (kg_nodes g')" using fn that by (rule filter_eq_mem)
    moreover have "find (\<lambda>n. nid n = nid m) (kg_nodes g') = find (\<lambda>n. nid n = nid m) (kg_nodes g)"
    proof -
      have imp: "nid x \<notin> set (map nid batch_nodes)" if "nid x = nid m" for x :: Node
        using that \<open>?N m\<close> by simp
      have "find (\<lambda>n. nid n = nid m) (kg_nodes g') = find (\<lambda>n. nid n = nid m) (filter ?N (kg_nodes g'))"
        by (rule find_filter [symmetric]) (rule imp)
      also have "\<dots> = find (\<lambda>n. nid n = nid m) (filter ?N (kg_nodes g))" by (simp only: fn)
      also have "\<dots> = find (\<lambda>n. nid n = nid m) (kg_nodes g)"
        by (rule find_filter) (rule imp)
      finally show ?thesis .
    qed
    ultimately show ?thesis by (simp add: getNode_def)
  qed
  have edges: "x \<in> set (kg_edges g')" if "x \<in> set (kg_edges g)" "?E x" for x
    using fe that by (rule filter_eq_mem)
  show ?thesis using fn fe nodes edges by blast
qed

theorem merge_graph_untouched_witness:
  "merge_graph orders_graph [service ''service:api''\<lparr>name := ''API''\<rparr>]
       [depends_on ''service:api'' ''database:orders-db'']
     = (\<lparr>kg_nodes = [service ''service:api''\<lparr>name := ''API''\<rparr>, service ''service:orders''],
         kg_edges = [depends_on ''service:api'' ''service:orders'']\<rparr>,
        \<lparr>nodes_added = 0, nodes_updated = 1, edges_added = 0, edges_updated = 0,
         edges_dropped = [(depends_on ''service:api'' ''database:orders-db'', DanglingReferenceError)]\<rparr>)
   \<and> service ''service:orders'' \<in> set (kg_nodes orders_graph)
   \<and> getNode (fst (merge_graph orders_graph [service ''service:api''\<lparr>name := ''API''\<rparr>]
         [depends_on ''service:api'' ''database:orders-db''])) ''service:orders''
       = getNode orders_graph ''service:orders''"
proof -
  let ?g' = "\<lparr>kg_nodes = [service ''service:api''\<lparr>name := ''API''\<rparr>, service ''service:orders''],
         kg_edges = [depends_on ''service:api'' ''service:orders'']\<rparr>"
  let ?r = "\<lparr>nodes_added = 0, nodes_updated = 1, edges_added = 0, edges_updated = 0,
         edges_dropped = [(depends_on ''service:api'' ''database:orders-db'', DanglingReferenceError)]\<rparr>"
  have m: "merge_graph orders_graph [service ''service:api''\<lparr>name := ''API''\<rparr>]
       [depends_on ''service:api'' ''database:orders-db''] = (?g', ?r)"
    by (simp add: merge_graph_def merge_node_def merge_edge_def upsertNode_def upsertEdge_def
          orders_graph_def service_def depends_on_def has_node_def empty_report_def)
  have i: "service ''service:orders'' \<in> set (kg_nodes orders_graph)"
    by (simp add: orders_graph_def)
  have k: "nid (service ''service:orders'') = ''service:orders''"
    by (simp add: service_def)
  have a: "nid (service ''service:orders'') \<notin> set (map nid [service ''service:api''\<lparr>name := ''API''\<rparr>])"
    by (simp add: service_def)
  note T = merge_graph_untouched [OF m]
  from T i a have "getNode ?g' (nid (service ''service:orders''))
      = getNode orders_graph (nid (service ''service:orders''))"
    by blast
  then have "getNode (fst (?g', ?r)) ''service:orders'' = getNode orders_graph ''service:orders''"
    unfolding k by simp
  then show ?thesis using m i by simp
qed

subsection \<open>Invariants of the traversal\<close>

text \<open>
  The invariant of the loop: no id is marked twice; the expanded nodes and the queued
  nodes are pairwise different and all marked; every mark is at most \<open>maxDepth\<close> and is
  the length of a walk from the start node.
\<close>

definition bfs_inv ::
  "KnowledgeGraph \<Rightarrow> direction \<Rightarrow> string list option \<Rightarrow> nat \<Rightarrow> string \<Rightarrow> marks \<Rightarrow> marks \<Rightarrow>
   string list \<Rightarrow> bool" where
  "bfs_inv g dir f maxDepth s q vis ex =
     (distinct (map fst vis) \<and> distinct (ex @ map fst q) \<and> set ex \<subseteq> fst ` set vis \<and>
      set q \<subseteq> set vis \<and> (\<forall>(n, k) \<in> set vis. k \<le> maxDepth \<and> walk g dir f s k n))"

lemma bfs_inv_skip:
  "bfs_inv g dir f maxDepth s ((n, d) # q) vis ex \<Longrightarrow> bfs_inv g dir f maxDepth s q vis ex"
  by (auto simp: bfs_inv_def)

lemma bfs_inv_expand:
  assumes inv: "bfs_inv g dir f maxDepth s ((n, d) # q) vis ex"
    and d: "d < maxDepth"
    and e: "expand g dir f n d (vis, q) = (vis', q')"
  shows "bfs_inv g dir f maxDepth s q' vis' (ex @ [n])"
proof -
  from expand_shape [of g dir f n d vis q] e obtain new where
    v: "vis' = vis @ new" and q: "q' = q @ new" and dn: "distinct (map fst new)"
    and dj: "fst ` set new \<inter> fst ` set vis = {}"
    and sub: "fst ` set new \<subseteq> set (neighbours g dir f n)"
    and dep: "snd ` set new \<subseteq> {Suc d}"
    by auto
  from inv have dv: "distinct (map fst vis)" and dq: "distinct (ex @ n # map fst q)"
    and exv: "set ex \<subseteq> fst ` set vis" and qv: "set ((n, d) # q) \<subseteq> set vis"
    and wk: "\<forall>(n, k) \<in> set vis. k \<le> maxDepth \<and> walk g dir f s k n"
    by (auto simp: bfs_inv_def)
  have nv: "n \<in> fst ` set vis" using qv by force
  have qk: "fst ` set q \<subseteq> fst ` set vis" using qv by auto
  have wn: "walk g dir f s d n" using qv wk by auto
  have 1: "distinct (map fst vis')" using v dv dn dj by auto
  have kn: "fst ` set new \<inter> (set ex \<union> {n} \<union> fst ` set q) = {}"
    using dj exv nv qk by blast
  have 2: "distinct ((ex @ [n]) @ map fst q')"
    using q dq dn kn by (auto simp: image_iff)
  have 3: "set (ex @ [n]) \<subseteq> fst ` set vis'" using v exv nv by auto
  have 4: "set q' \<subseteq> set vis'" using v q qv by auto
  have 5: "\<forall>(m, k) \<in> set vis'. k \<le> maxDepth \<and> walk g dir f s k m"
  proof (clarify)
    fix m k assume mk: "(m, k) \<in> set vis'"
    show "k \<le> maxDepth \<and> walk g dir f s k m"
    proof (cases "(m, k) \<in> set vis")
      case True
      then show ?thesis using wk by auto
    next
      case False
      then have in_new: "(m, k) \<in> set new" using mk v by auto
      then have k: "k = Suc d" using dep by force
      have "m \<in> set (neighbours g dir f n)" using in_new sub by force
      then have "walk g dir f s (Suc d) m" using wn by (rule walk_step [rotated])
      then show ?thesis using k d by simp
    qed
  qed
  show ?thesis unfolding bfs_inv_def using 1 2 3 4 5 by blast
qed

lemma bfs_loop_inv:
  "bfs_inv g dir f maxDepth s q vis ex \<Longrightarrow>
   bfs_inv g dir f maxDepth s [] (visited (bfs_loop g dir f maxDepth q vis ex))
     (expanded (bfs_loop g dir f maxDepth q vis ex))"
proof (induction g dir f maxDepth q vis ex rule: bfs_loop.induct)
  case (1 g dir f maxDepth vis ex)
  then show ?case by simp
next
  case (2 g dir f maxDepth n d q vis ex)
  show ?case
  proof (cases "d \<ge> maxDepth")
    case True
    then show ?thesis using 2 by (simp add: bfs_inv_skip)
  next
    case False
    obtain vis' q' where e: "expand g dir f n d (vis, q) = (vis', q')" by force
    have "bfs_inv g dir f maxDepth s q' vis' (ex @ [n])"
      using bfs_inv_expand [OF "2.prems" _ e] False by simp
    then show ?thesis using "2.IH"(2) [OF False e [symmetric]] False e by simp
  qed
qed

lemma bfs_inv_init: "bfs_inv g dir f maxDepth s [(s, 0)] [(s, 0)] []"
  by (simp add: bfs_inv_def walk_start)

lemma bfsFrontier_inv:
  "bfs_inv g dir f maxDepth s [] (visited (bfsFrontier g s dir f maxDepth))
     (expanded (bfsFrontier g s dir f maxDepth))"
  unfolding bfsFrontier_def by (rule bfs_loop_inv [OF bfs_inv_init])

text \<open>
  The second invariant of the loop, for completeness: the depths in the queue do not
  decrease; no mark exceeds a queued depth by more than one; and a marked node that is no
  longer queued and lies below \<open>maxDepth\<close> has all its neighbours marked, none more than
  one level deeper.
\<close>

definition bfs_closed ::
  "KnowledgeGraph \<Rightarrow> direction \<Rightarrow> string list option \<Rightarrow> nat \<Rightarrow> marks \<Rightarrow> marks \<Rightarrow> bool" where
  "bfs_closed g dir f maxDepth q vis =
     (sorted (map snd q) \<and> set q \<subseteq> set vis \<and>
      (\<forall>(m, k) \<in> set vis. \<forall>(n, d) \<in> set q. k \<le> Suc d) \<and>
      (\<forall>(n, d) \<in> set vis. (n, d) \<notin> set q \<longrightarrow> d < maxDepth \<longrightarrow>
         (\<forall>m \<in> set (neighbours g dir f n). \<exists>k \<le> Suc d. (m, k) \<in> set vis)))"

lemma fold_enqueue_covers:
  "m \<in> set ms \<Longrightarrow> m \<in> fst ` set (fst (fold (enqueue d) ms (vis, q)))"
proof (induction ms arbitrary: vis q)
  case Nil
  then show ?case by simp
next
  case (Cons x ms)
  obtain new where n: "fold (enqueue d) ms (enqueue d x (vis, q))
      = (fst (enqueue d x (vis, q)) @ new, snd (enqueue d x (vis, q)) @ new)"
    using fold_enqueue_shape [of d ms "fst (enqueue d x (vis, q))" "snd (enqueue d x (vis, q))"]
    by auto
  show ?case
  proof (cases "m = x")
    case True
    have "x \<in> fst ` set (fst (enqueue d x (vis, q)))" by auto
    then show ?thesis using True n by auto
  next
    case False
    then have "m \<in> set ms" using Cons.prems by simp
    then show ?thesis using Cons.IH [of "fst (enqueue d x (vis, q))" "snd (enqueue d x (vis, q))"]
      by simp
  qed
qed

lemma sorted_const: "\<forall>x \<in> set xs. snd x = (c::nat) \<Longrightarrow> sorted (map snd xs)"
  by (induction xs) auto

lemma bfs_closed_skip:
  "bfs_closed g dir f maxDepth ((n, d) # q) vis \<Longrightarrow> maxDepth \<le> d \<Longrightarrow>
   bfs_closed g dir f maxDepth q vis"
  unfolding bfs_closed_def by (auto; fastforce)

lemma bfs_closed_expand:
  assumes c: "bfs_closed g dir f maxDepth ((n, d) # q) vis"
    and e: "expand g dir f n d (vis, q) = (vis', q')"
  shows "bfs_closed g dir f maxDepth q' vis'"
proof -
  from expand_shape [of g dir f n d vis q] e obtain new where
    v: "vis' = vis @ new" and q: "q' = q @ new"
    and dep: "snd ` set new \<subseteq> {Suc d}"
    by auto
  have newd: "k = Suc d" if "(m, k) \<in> set new" for m k using that dep by force
  from c have srt: "sorted (map snd ((n, d) # q))" and qv: "set ((n, d) # q) \<subseteq> set vis"
    and lvl: "\<forall>(m, k) \<in> set vis. \<forall>(n', d') \<in> set ((n, d) # q). k \<le> Suc d'"
    and cl: "\<forall>(n', d') \<in> set vis. (n', d') \<notin> set ((n, d) # q) \<longrightarrow> d' < maxDepth \<longrightarrow>
         (\<forall>m \<in> set (neighbours g dir f n'). \<exists>k \<le> Suc d'. (m, k) \<in> set vis)"
    by (auto simp: bfs_closed_def)
  have head_le: "d \<le> d'" if "(n', d') \<in> set q" for n' d' using srt that by force
  have vis_le: "k \<le> Suc d" if "(m, k) \<in> set vis" for m k using lvl that by force
  have q_le: "d' \<le> Suc d" if "(n', d') \<in> set q" for n' d' using that qv vis_le by auto
  have "sorted (map snd new)" using newd by (intro sorted_const [of _ "Suc d"]) auto
  then have 1: "sorted (map snd q')"
    using srt q q_le newd by (auto simp: sorted_append)
  have 2: "set q' \<subseteq> set vis'" using v q qv by auto
  have 3: "\<forall>(m, k) \<in> set vis'. \<forall>(n', d') \<in> set q'. k \<le> Suc d'"
  proof (clarify)
    fix m k n' d' assume mk: "(m, k) \<in> set vis'" and nd: "(n', d') \<in> set q'"
    have k: "k \<le> Suc d" using mk v vis_le [of m k] newd [of m k] by auto
    have "d \<le> d'" using nd q head_le [of n' d'] newd [of n' d'] by auto
    then show "k \<le> Suc d'" using k by simp
  qed
  have 4: "\<forall>(n', d') \<in> set vis'. (n', d') \<notin> set q' \<longrightarrow> d' < maxDepth \<longrightarrow>
         (\<forall>m \<in> set (neighbours g dir f n'). \<exists>k \<le> Suc d'. (m, k) \<in> set vis')"
  proof (clarify)
    fix n' d' m
    assume nv: "(n', d') \<in> set vis'" and nq: "(n', d') \<notin> set q'" and dm: "d' < maxDepth"
      and mn: "m \<in> set (neighbours g dir f n')"
    from nv nq v q have old: "(n', d') \<in> set vis" and notq: "(n', d') \<notin> set q" by auto
    show "\<exists>k \<le> Suc d'. (m, k) \<in> set vis'"
    proof (cases "(n', d') = (n, d)")
      case True
      then have "m \<in> set (neighbours g dir f n)" using mn by simp
      then have "m \<in> fst ` set (fst (expand g dir f n d (vis, q)))"
        unfolding expand_def by (rule fold_enqueue_covers)
      then obtain k where mk: "(m, k) \<in> set vis'" using e by auto
      then have "k \<le> Suc d" using v vis_le [of m k] newd [of m k] by auto
      then show ?thesis using mk True by auto
    next
      case False
      then have "(n', d') \<notin> set ((n, d) # q)" using notq by simp
      then obtain k where "k \<le> Suc d'" "(m, k) \<in> set vis" using cl old dm mn by blast
      then show ?thesis using v by auto
    qed
  qed
  show ?thesis unfolding bfs_closed_def using 1 2 3 4 by blast
qed

lemma bfs_loop_closed:
  "bfs_closed g dir f maxDepth q vis \<Longrightarrow>
   bfs_closed g dir f maxDepth [] (visited (bfs_loop g dir f maxDepth q vis ex))"
proof (induction g dir f maxDepth q vis ex rule: bfs_loop.induct)
  case (1 g dir f maxDepth vis ex)
  then show ?case by simp
next
  case (2 g dir f maxDepth n d q vis ex)
  show ?case
  proof (cases "d \<ge> maxDepth")
    case True
    then show ?thesis using 2 by (simp add: bfs_closed_skip)
  next
    case False
    obtain vis' q' where e: "expand g dir f n d (vis, q) = (vis', q')" by force
    have "bfs_closed g dir f maxDepth q' vis'"
      using "2.prems" e by (rule bfs_closed_expand)
    then show ?thesis using "2.IH"(2) [OF False e [symmetric]] False e by simp
  qed
qed

lemma bfs_loop_extends:
  "set vis \<subseteq> set (visited (bfs_loop g dir f maxDepth q vis ex))"
proof (induction g dir f maxDepth q vis ex rule: bfs_loop.induct)
  case (1 g dir f maxDepth vis ex)
  then show ?case by simp
next
  case (2 g dir f maxDepth n d q vis ex)
  show ?case
  proof (cases "d \<ge> maxDepth")
    case True
    then show ?thesis using 2 by simp
  next
    case False
    obtain vis' q' where e: "expand g dir f n d (vis, q) = (vis', q')" by force
    then have "set vis \<subseteq> set vis'" using expand_shape [of g dir f n d vis q] by auto
    then show ?thesis using "2.IH"(2) [OF False e [symmetric]] False e by auto
  qed
qed

lemma bfsFrontier_closed:
  "bfs_closed g dir f maxDepth [] (visited (bfsFrontier g s dir f maxDepth))"
  unfolding bfsFrontier_def
  by (rule bfs_loop_closed) (simp add: bfs_closed_def)

lemma bfsFrontier_start: "(s, 0) \<in> set (visited (bfsFrontier g s dir f maxDepth))"
proof -
  have "set [(s, 0)] \<subseteq> set (visited (bfs_loop g dir f maxDepth [(s, 0)] [(s, 0)] []))"
    by (rule bfs_loop_extends)
  then show ?thesis unfolding bfsFrontier_def by (auto simp del: bfs_loop.simps)
qed

lemma bfsFrontier_complete:
  "walk g dir f s j m \<Longrightarrow> j \<le> maxDepth \<Longrightarrow>
   \<exists>k \<le> j. (m, k) \<in> set (visited (bfsFrontier g s dir f maxDepth))"
proof (induction rule: walk.induct)
  case walk_start
  then show ?case using bfsFrontier_start by blast
next
  case (walk_step j n m)
  then obtain d where d: "d \<le> j" "(n, d) \<in> set (visited (bfsFrontier g s dir f maxDepth))"
    by auto
  have "d < maxDepth" using d(1) walk_step.prems by simp
  then obtain k where "k \<le> Suc d" "(m, k) \<in> set (visited (bfsFrontier g s dir f maxDepth))"
    using bfsFrontier_closed [of g dir f maxDepth s] d(2) walk_step.hyps(2)
    by (auto simp: bfs_closed_def) blast
  then show ?case using d(1) by (intro exI [of _ k]) simp
qed

lemma bfsFrontier_sound:
  "(m, k) \<in> set (visited (bfsFrontier g s dir f maxDepth)) \<Longrightarrow>
   k \<le> maxDepth \<and> walk g dir f s k m"
  using bfsFrontier_inv [of g dir f maxDepth s] by (auto simp: bfs_inv_def)

lemma bfsFrontier_smallest_depth:
  assumes "(m, k) \<in> set (visited (bfsFrontier g s dir f maxDepth))"
    and "walk g dir f s j m" and "j \<le> maxDepth"
  shows "k \<le> j"
proof -
  from bfsFrontier_complete [OF assms(2,3)] obtain k' where
    k': "k' \<le> j" "(m, k') \<in> set (visited (bfsFrontier g s dir f maxDepth))"
    by blast
  have "distinct (map fst (visited (bfsFrontier g s dir f maxDepth)))"
    using bfsFrontier_inv [of g dir f maxDepth s] by (simp add: bfs_inv_def)
  then have "k = k'" using assms(1) k'(2) by (rule eq_key_imp_eq_value)
  then show ?thesis using k'(1) by simp
qed

lemma traverse_Inr:
  "traverse g dir i d f = Inr xs \<Longrightarrow>
   0 \<le> d \<and> has_node g i \<and>
   xs = filter (\<lambda>n. n \<noteq> i) (map fst (visited (bfsFrontier g i dir f (nat d))))"
  by (auto simp: traverse_def split: if_splits)

lemma traverse_exact:
  assumes "traverse g dir i d f = Inr xs"
  shows "set xs = {n. n \<noteq> i \<and> (\<exists>k \<le> nat d. walk g dir f i k n)}"
proof -
  from assms have xs: "xs = filter (\<lambda>n. n \<noteq> i) (map fst (visited (bfsFrontier g i dir f (nat d))))"
    by (simp add: traverse_Inr)
  show ?thesis
  proof (intro set_eqI iffI)
    fix n assume "n \<in> set xs"
    then obtain k where "n \<noteq> i" "(n, k) \<in> set (visited (bfsFrontier g i dir f (nat d)))"
      using xs by auto
    then show "n \<in> {n. n \<noteq> i \<and> (\<exists>k \<le> nat d. walk g dir f i k n)}"
      using bfsFrontier_sound by blast
  next
    fix n assume "n \<in> {n. n \<noteq> i \<and> (\<exists>k \<le> nat d. walk g dir f i k n)}"
    then obtain k where "n \<noteq> i" "k \<le> nat d" "walk g dir f i k n" by auto
    then obtain k' where "(n, k') \<in> set (visited (bfsFrontier g i dir f (nat d)))"
      using bfsFrontier_complete by blast
    then show "n \<in> set xs" using xs \<open>n \<noteq> i\<close> by force
  qed
qed

lemma walk_zero: "walk g dir f s 0 n \<Longrightarrow> n = s"
  by (cases rule: walk.cases) auto

lemma traverse_within:
  assumes "traverse g dir i d f = Inr xs" and "n \<in> set xs"
  shows "\<exists>k. 0 < k \<and> k \<le> nat d \<and> walk g dir f i k n"
proof -
  from assms(1) have xs: "xs = filter (\<lambda>n. n \<noteq> i) (map fst (visited (bfsFrontier g i dir f (nat d))))"
    by (simp add: traverse_Inr)
  with assms(2) obtain k where ni: "n \<noteq> i" and m: "(n, k) \<in> set (visited (bfsFrontier g i dir f (nat d)))"
    by auto
  from bfsFrontier_inv [of g dir f "nat d" i] m have "k \<le> nat d" "walk g dir f i k n"
    by (auto simp: bfs_inv_def)
  moreover have "0 < k" using ni \<open>walk g dir f i k n\<close> walk_zero by (cases k) auto
  ultimately show ?thesis by blast
qed

subsection \<open>Cycles and chains\<close>

lemma fold_enqueue_seen:
  "set ms \<subseteq> fst ` set vis \<Longrightarrow> fold (enqueue d) ms (vis, q) = (vis, q)"
  by (induction ms) auto

lemma bfs_loop_path:
  "list_all (\<lambda>(u, v). neighbours g Outgoing None u = [v]) (zip (u # ws) ws) \<Longrightarrow>
   set (neighbours g Outgoing None (last (u # ws))) \<subseteq> fst ` set vis \<union> set ws \<Longrightarrow>
   distinct ws \<Longrightarrow> set ws \<inter> fst ` set vis = {} \<Longrightarrow>
   map fst (visited (bfs_loop g Outgoing None maxDepth [(u, d)] vis ex))
     = map fst vis @ take (maxDepth - d) ws"
proof (induction ws arbitrary: u d vis ex)
  case Nil
  then have "expand g Outgoing None u d (vis, []) = (vis, [])"
    by (simp add: expand_def fold_enqueue_seen)
  then show ?case by simp
next
  case (Cons w ws)
  show ?case
  proof (cases "d \<ge> maxDepth")
    case True
    then show ?thesis by simp
  next
    case False
    have nb: "neighbours g Outgoing None u = [w]" using Cons.prems(1) by simp
    have wv: "w \<notin> fst ` set vis" using Cons.prems(4) by auto
    have e: "expand g Outgoing None u d (vis, []) = (vis @ [(w, Suc d)], [(w, Suc d)])"
      using nb wv by (simp add: expand_def)
    have ih: "map fst (visited (bfs_loop g Outgoing None maxDepth [(w, Suc d)]
                 (vis @ [(w, Suc d)]) (ex @ [u])))
        = map fst (vis @ [(w, Suc d)]) @ take (maxDepth - Suc d) ws"
      using Cons.prems by (intro Cons.IH) auto
    have "maxDepth - d = Suc (maxDepth - Suc d)" using False by simp
    then show ?thesis using False e ih by simp
  qed
qed

lemma traverse_simple_path:
  assumes p: "simple_path g start chain"
    and l: "set (neighbours g Outgoing None (last (start # chain))) \<subseteq> {start} \<union> set chain"
    and d: "0 \<le> d"
  shows "traverse g Outgoing start d None = Inr (take (nat d) chain)"
proof -
  from p have dist: "distinct (start # chain)" and hn: "has_node g start"
    and nb: "list_all (\<lambda>(u, v). neighbours g Outgoing None u = [v]) (zip (start # chain) chain)"
    by (auto simp: simple_path_def)
  have "map fst (visited (bfs_loop g Outgoing None (nat d) [(start, 0)] [(start, 0)] []))
          = map fst [(start, 0::nat)] @ take (nat d - 0) chain"
    using nb l dist by (intro bfs_loop_path) auto
  then have v: "map fst (visited (bfsFrontier g start Outgoing None (nat d))) = start # take (nat d) chain"
    by (simp add: bfsFrontier_def)
  have "start \<notin> set (take (nat d) chain)" using dist by (auto dest: in_set_takeD)
  then have "filter (\<lambda>n. n \<noteq> start) (take (nat d) chain) = take (nat d) chain"
    by (auto simp: filter_id_conv)
  then show ?thesis using v hn d by (simp add: traverse_def)
qed

text \<open>
  C1 (on the traversal modelled from the spec). The traversal is a total function, so it
  returns on every graph, with or without cycles. On every graph no id is marked twice and
  no node is expanded twice; the result of \<open>downstream\<close> lists each node once, never the
  start node, and holds exactly the other nodes that a walk of at most \<open>maxDepth\<close> edges
  reaches. On a graph that is a cycle through the start node, \<open>downstream\<close> with
  \<open>maxDepth = 10\<close> returns the next ten nodes of the cycle, so all the other nodes of a
  cycle of at most eleven; for the edges A\<rightarrow>B, B\<rightarrow>C, C\<rightarrow>A it returns B, C.
\<close>

lemma cycle_ABC_cycle: "cycle cycle_ABC ''A'' [''B'', ''C'']"
  by (simp add: cycle_def simple_path_def cycle_ABC_def has_node_def service_def depends_on_def
        neighbours_def follows_def)

theorem downstream_cycle_safe:
  "distinct (map fst (visited (bfsFrontier g a dir f maxDepth)))
   \<and> distinct (expanded (bfsFrontier g a dir f maxDepth))
   \<and> set (expanded (bfsFrontier g a dir f maxDepth))
       \<subseteq> fst ` set (visited (bfsFrontier g a dir f maxDepth))
   \<and> (\<forall>xs. downstream g a d f = Inr xs \<longrightarrow>
         distinct xs \<and> a \<notin> set xs
         \<and> set xs = {n. n \<noteq> a \<and>
               (\<exists>k \<le> nat (case d of None \<Rightarrow> 10 | Some b \<Rightarrow> b). walk g Outgoing f a k n)})
   \<and> (cycle g a chain \<longrightarrow> downstream g a (Some 10) None = Inr (take 10 chain))
   \<and> downstream cycle_ABC ''A'' (Some 10) None = Inr [''B'', ''C'']"
proof -
  have inv: "bfs_inv g dir f m a [] (visited (bfsFrontier g a dir f m))
     (expanded (bfsFrontier g a dir f m))" for m
    by (rule bfsFrontier_inv)
  have 1: "distinct (map fst (visited (bfsFrontier g a dir f maxDepth)))"
    and 2: "distinct (expanded (bfsFrontier g a dir f maxDepth))"
    and 3: "set (expanded (bfsFrontier g a dir f maxDepth))
       \<subseteq> fst ` set (visited (bfsFrontier g a dir f maxDepth))"
    using inv [of maxDepth] by (simp_all add: bfs_inv_def)
  have 4: "distinct xs \<and> a \<notin> set xs
         \<and> set xs = {n. n \<noteq> a \<and>
               (\<exists>k \<le> nat (case d of None \<Rightarrow> 10 | Some b \<Rightarrow> b). walk g Outgoing f a k n)}"
    if "downstream g a d f = Inr xs" for xs
  proof -
    let ?m = "nat (case d of None \<Rightarrow> 10 | Some b \<Rightarrow> b)"
    have t: "traverse g Outgoing a (case d of None \<Rightarrow> 10 | Some b \<Rightarrow> b) f = Inr xs"
      using that by (simp add: downstream_def)
    then have "xs = filter (\<lambda>n. n \<noteq> a) (map fst (visited (bfsFrontier g a Outgoing f ?m)))"
      by (simp add: traverse_Inr)
    moreover have "distinct (map fst (visited (bfsFrontier g a Outgoing f ?m)))"
      using bfsFrontier_inv [of g Outgoing f ?m a] by (simp add: bfs_inv_def)
    ultimately have "distinct xs \<and> a \<notin> set xs" by simp
    then show ?thesis using traverse_exact [OF t] by simp
  qed
  have 5: "downstream g' a' (Some 10) None = Inr (take 10 chain')"
    if "cycle g' a' chain'" for g' a' chain'
  proof -
    from that have "simple_path g' a' chain'"
      and "set (neighbours g' Outgoing None (last (a' # chain'))) \<subseteq> {a'} \<union> set chain'"
      by (simp_all add: cycle_def)
    then have "traverse g' Outgoing a' 10 None = Inr (take (nat 10) chain')"
      by (intro traverse_simple_path) simp_all
    then show ?thesis by (simp add: downstream_def)
  qed
  have 6: "downstream cycle_ABC ''A'' (Some 10) None = Inr [''B'', ''C'']"
    using 5 [OF cycle_ABC_cycle] by simp
  show ?thesis using 1 2 3 4 5 6 by blast
qed

theorem downstream_cycle_safe_witness:
  "cycle cycle_ABC ''A'' [''B'', ''C'']
   \<and> downstream cycle_ABC ''A'' (Some 10) None = Inr [''B'', ''C'']
   \<and> distinct [''B'', ''C''] \<and> ''A'' \<notin> set [''B'', ''C'']
   \<and> distinct (expanded (bfsFrontier cycle_ABC ''A'' Outgoing None 10))"
proof -
  have c: "cycle cycle_ABC ''A'' [''B'', ''C'']"
    by (simp add: cycle_def simple_path_def cycle_ABC_def has_node_def service_def
          depends_on_def neighbours_def follows_def)
  show ?thesis
    using c downstream_cycle_safe [of cycle_ABC "''A''" Outgoing None 10 "Some 10" "[''B'', ''C'']"]
    by simp
qed

lemma chain_graph_neighbours:
  "distinct ids \<Longrightarrow>
   list_all (\<lambda>(u, v). neighbours (chain_graph ids) Outgoing None u = [v]) (zip ids (tl ids))
   \<and> (ids \<noteq> [] \<longrightarrow> neighbours (chain_graph ids) Outgoing None (last ids) = [])
   \<and> (\<forall>u. u \<notin> set ids \<longrightarrow> neighbours (chain_graph ids) Outgoing None u = [])"
proof (induction ids)
  case Nil
  then show ?case by (simp add: chain_graph_def neighbours_def)
next
  case (Cons x rest)
  show ?case
  proof (cases rest)
    case Nil
    then show ?thesis by (simp add: chain_graph_def neighbours_def)
  next
    case (Cons y zs)
    have dist: "distinct rest" and xr: "x \<notin> set rest" using Cons.prems by auto
    note ih = Cons.IH [OF dist]
    have step: "neighbours (chain_graph (x # rest)) Outgoing None u
        = (if u = x then [y] else []) @ neighbours (chain_graph rest) Outgoing None u" for u
      using Cons by (simp add: chain_graph_def neighbours_def follows_def depends_on_def)
    have 1: "list_all (\<lambda>(u, v). neighbours (chain_graph (x # rest)) Outgoing None u = [v])
        (zip (x # rest) (tl (x # rest)))"
    proof -
      have "neighbours (chain_graph (x # rest)) Outgoing None x = [y]"
        using step [of x] ih xr by simp
      moreover have "list_all (\<lambda>(u, v). neighbours (chain_graph (x # rest)) Outgoing None u = [v])
          (zip rest (tl rest))"
        unfolding list_all_iff
      proof (clarify)
        fix u v assume uv: "(u, v) \<in> set (zip rest (tl rest))"
        then have "u \<in> set rest" by (rule set_zip_leftD)
        then have "u \<noteq> x" using xr by auto
        moreover have "neighbours (chain_graph rest) Outgoing None u = [v]"
          using ih uv by (auto simp: list_all_iff)
        ultimately show "neighbours (chain_graph (x # rest)) Outgoing None u = [v]"
          using step [of u] by simp
      qed
      ultimately show ?thesis using Cons by simp
    qed
    have 2: "neighbours (chain_graph (x # rest)) Outgoing None (last (x # rest)) = []"
    proof -
      have "last (x # rest) = last rest" using Cons by simp
      moreover have "last rest \<in> set rest" using Cons by simp
      then have "last rest \<noteq> x" using xr by auto
      ultimately show ?thesis using step [of "last rest"] ih Cons by simp
    qed
    have 3: "\<forall>u. u \<notin> set (x # rest) \<longrightarrow> neighbours (chain_graph (x # rest)) Outgoing None u = []"
      using step ih by simp
    from 1 2 3 show ?thesis by simp
  qed
qed

lemma chain_graph_linear:
  "distinct (start # chain) \<Longrightarrow> linear_chain (chain_graph (start # chain)) start chain"
  using chain_graph_neighbours [of "start # chain"]
  by (simp add: linear_chain_def simple_path_def has_node_def chain_graph_def service_def)

text \<open>
  C2 (on the traversal modelled from the spec). On a linear chain of \<open>L\<close> nodes hanging
  off the start node, \<open>downstream\<close> with \<open>maxDepth = d \<ge> 0\<close> returns the first \<open>min d L\<close>
  nodes of the chain: the node reached at depth \<open>d\<close> is in the result and is not expanded.
  This holds for every graph in which each node of the chain has the next one as its only
  successor, and so for the graph built from any list of distinct ids.
\<close>

theorem downstream_depth_bound:
  "0 \<le> d \<Longrightarrow>
   (linear_chain g start chain \<longrightarrow>
      downstream g start (Some d) None = Inr (take (nat d) chain))
   \<and> (distinct (start # chain) \<longrightarrow>
      downstream (chain_graph (start # chain)) start (Some d) None = Inr (take (nat d) chain))
   \<and> length (take (nat d) chain) = min (nat d) (length chain)"
proof -
  assume d: "0 \<le> d"
  have 1: "downstream g' start (Some d) None = Inr (take (nat d) chain)"
    if c: "linear_chain g' start chain" for g'
  proof -
    from c have "simple_path g' start chain"
      and "set (neighbours g' Outgoing None (last (start # chain))) \<subseteq> {start} \<union> set chain"
      by (simp_all add: linear_chain_def)
    then have "traverse g' Outgoing start d None = Inr (take (nat d) chain)"
      using d by (rule traverse_simple_path)
    then show ?thesis by (simp add: downstream_def)
  qed
  have 2: "downstream (chain_graph (start # chain)) start (Some d) None = Inr (take (nat d) chain)"
    if "distinct (start # chain)"
    using that by (intro 1 chain_graph_linear)
  have 3: "length (take (nat d) chain) = min (nat d) (length chain)"
    by (simp add: min.commute)
  from 1 2 3 show ?thesis by (intro conjI impI)
qed

theorem downstream_depth_bound_witness:
  "linear_chain (chain_graph [''s'', ''n1'', ''n2'', ''n3'']) ''s'' [''n1'', ''n2'', ''n3'']
   \<and> distinct [''s'', ''n1'', ''n2'', ''n3'']
   \<and> downstream (chain_graph [''s'', ''n1'', ''n2'', ''n3'']) ''s'' (Some 2) None = Inr [''n1'', ''n2'']
   \<and> downstream (chain_graph [''s'', ''n1'', ''n2'', ''n3'']) ''s'' (Some 7) None = Inr [''n1'', ''n2'', ''n3'']
   \<and> downstream (chain_graph [''s'', ''n1'', ''n2'', ''n3'']) ''s'' (Some 0) None = Inr []"
proof -
  have c: "linear_chain (chain_graph [''s'', ''n1'', ''n2'', ''n3'']) ''s'' [''n1'', ''n2'', ''n3'']"
    by (simp add: linear_chain_def simple_path_def chain_graph_def has_node_def service_def
          depends_on_def neighbours_def follows_def)
  have e: "distinct [''s'', ''n1'', ''n2'', ''n3'']" by simp
  have p: "(0::int) \<le> 2" "(0::int) \<le> 7" "(0::int) \<le> 0" by simp_all
  note T2 = downstream_depth_bound [OF p(1), of "chain_graph [''s'', ''n1'', ''n2'', ''n3'']"
      "''s''" "[''n1'', ''n2'', ''n3'']"]
  note T7 = downstream_depth_bound [OF p(2), of "chain_graph [''s'', ''n1'', ''n2'', ''n3'']"
      "''s''" "[''n1'', ''n2'', ''n3'']"]
  note T0 = downstream_depth_bound [OF p(3), of "chain_graph [''s'', ''n1'', ''n2'', ''n3'']"
      "''s''" "[''n1'', ''n2'', ''n3'']"]
  from T2 c have r2: "downstream (chain_graph [''s'', ''n1'', ''n2'', ''n3'']) ''s'' (Some 2) None
      = Inr [''n1'', ''n2'']"
    by simp
  from T7 e have r7: "downstream (chain_graph [''s'', ''n1'', ''n2'', ''n3'']) ''s'' (Some 7) None
      = Inr [''n1'', ''n2'', ''n3'']"
    by simp
  from T0 c have r0: "downstream (chain_graph [''s'', ''n1'', ''n2'', ''n3'']) ''s'' (Some 0) None
      = Inr []"
    by simp
  from c e r2 r7 r0 show ?thesis by (intro conjI)
qed

subsection \<open>Default depths\<close>

lemma number_toString_10: "number_toString 10 = ''10''"
  by (simp add: number_toString_def number_digits.simps digit_char_def)

lemma number_toString_5: "number_toString 5 = ''5''"
  by (simp add: number_toString_def number_digits.simps digit_char_def)

lemma traversal_request_Val:
  "\<exists>rest. traversal_request prefix nodeId (Val d) ets
            = Inr \<lparr>endpoint = prefix, node = nodeId, params = (''max_depth'', number_toString d) # rest\<rparr>"
  by (simp add: traversal_request_def)

text \<open>
  C8. Called without a depth, \<open>getDownstream\<close> and \<open>getUpstream\<close> issue a request whose
  first parameter is \<open>max_depth=10\<close>; called with a depth they send that depth. On the
  traversal modelled from the spec, no depth means depth 10, and every node returned is
  the end of a walk of at least one and at most \<open>maxDepth\<close> edges from the start node,
  whatever the graph; with the default, the result is exactly the set of other nodes within
  ten edges.
\<close>

theorem default_maxDepth:
  "(\<exists>rest. getDownstream nodeId Undefined edgeTypes
       = Inr \<lparr>endpoint = ''/api/query/downstream/'', node = nodeId,
              params = (''max_depth'', ''10'') # rest\<rparr>)
   \<and> (\<exists>rest. getUpstream nodeId Undefined edgeTypes
       = Inr \<lparr>endpoint = ''/api/query/upstream/'', node = nodeId,
              params = (''max_depth'', ''10'') # rest\<rparr>)
   \<and> (\<exists>rest. getDownstream nodeId (Val d) edgeTypes
       = Inr \<lparr>endpoint = ''/api/query/downstream/'', node = nodeId,
              params = (''max_depth'', number_toString d) # rest\<rparr>)
   \<and> (\<exists>rest. getUpstream nodeId (Val d) edgeTypes
       = Inr \<lparr>endpoint = ''/api/query/upstream/'', node = nodeId,
              params = (''max_depth'', number_toString d) # rest\<rparr>)
   \<and> downstream g i None f = downstream g i (Some 10) f
   \<and> upstream g i None f = upstream g i (Some 10) f
   \<and> (\<forall>xs. downstream g i None f = Inr xs \<longrightarrow>
         (\<forall>n \<in> set xs. \<exists>k. 0 < k \<and> k \<le> 10 \<and> walk g Outgoing f i k n))
   \<and> (\<forall>xs. upstream g i None f = Inr xs \<longrightarrow>
         (\<forall>n \<in> set xs. \<exists>k. 0 < k \<and> k \<le> 10 \<and> walk g Incoming f i k n))
   \<and> (\<forall>xs. downstream g i (Some d) f = Inr xs \<longrightarrow>
         (\<forall>n \<in> set xs. \<exists>k. 0 < k \<and> k \<le> nat d \<and> walk g Outgoing f i k n))
   \<and> (\<forall>xs. upstream g i (Some d) f = Inr xs \<longrightarrow>
         (\<forall>n \<in> set xs. \<exists>k. 0 < k \<and> k \<le> nat d \<and> walk g Incoming f i k n))
   \<and> (\<forall>xs. downstream g i None f = Inr xs \<longrightarrow>
         set xs = {n. n \<noteq> i \<and> (\<exists>k \<le> 10. walk g Outgoing f i k n)})
   \<and> (\<forall>xs. upstream g i None f = Inr xs \<longrightarrow>
         set xs = {n. n \<noteq> i \<and> (\<exists>k \<le> 10. walk g Incoming f i k n)})"
proof -
  have 1: "\<exists>rest. getDownstream nodeId Undefined edgeTypes
       = Inr \<lparr>endpoint = ''/api/query/downstream/'', node = nodeId,
              params = (''max_depth'', ''10'') # rest\<rparr>"
    using traversal_request_Val [of "''/api/query/downstream/''" nodeId 10]
    by (simp add: getDownstream_def default_arg_def number_toString_10)
  have 2: "\<exists>rest. getUpstream nodeId Undefined edgeTypes
       = Inr \<lparr>endpoint = ''/api/query/upstream/'', node = nodeId,
              params = (''max_depth'', ''10'') # rest\<rparr>"
    using traversal_request_Val [of "''/api/query/upstream/''" nodeId 10]
    by (simp add: getUpstream_def default_arg_def number_toString_10)
  have 3: "\<exists>rest. getDownstream nodeId (Val d) edgeTypes
       = Inr \<lparr>endpoint = ''/api/query/downstream/'', node = nodeId,
              params = (''max_depth'', number_toString d) # rest\<rparr>"
    using traversal_request_Val [of "''/api/query/downstream/''" nodeId d]
    by (simp add: getDownstream_def default_arg_def)
  have 4: "\<exists>rest. getUpstream nodeId (Val d) edgeTypes
       = Inr \<lparr>endpoint = ''/api/query/upstream/'', node = nodeId,
              params = (''max_depth'', number_toString d) # rest\<rparr>"
    using traversal_request_Val [of "''/api/query/upstream/''" nodeId d]
    by (simp add: getUpstream_def default_arg_def)
  have 5: "downstream g i None f = downstream g i (Some 10) f"
    by (simp add: downstream_def)
  have 6: "upstream g i None f = upstream g i (Some 10) f"
    by (simp add: upstream_def)
  have 7: "\<exists>k. 0 < k \<and> k \<le> 10 \<and> walk g Outgoing f i k n"
    if "downstream g i None f = Inr xs" "n \<in> set xs" for xs n
    using traverse_within [of g Outgoing i 10 f xs n] that by (simp add: downstream_def)
  have 8: "\<exists>k. 0 < k \<and> k \<le> 10 \<and> walk g Incoming f i k n"
    if "upstream g i None f = Inr xs" "n \<in> set xs" for xs n
    using traverse_within [of g Incoming i 10 f xs n] that by (simp add: upstream_def)
  have 9: "\<exists>k. 0 < k \<and> k \<le> nat d \<and> walk g Outgoing f i k n"
    if "downstream g i (Some d) f = Inr xs" "n \<in> set xs" for xs n
    using traverse_within [of g Outgoing i d f xs n] that by (simp add: downstream_def)
  have 10: "\<exists>k. 0 < k \<and> k \<le> nat d \<and> walk g Incoming f i k n"
    if "upstream g i (Some d) f = Inr xs" "n \<in> set xs" for xs n
    using traverse_within [of g Incoming i d f xs n] that by (simp add: upstream_def)
  have 11: "set xs = {n. n \<noteq> i \<and> (\<exists>k \<le> 10. walk g Outgoing f i k n)}"
    if "downstream g i None f = Inr xs" for xs
    using traverse_exact [of g Outgoing i 10 f xs] that by (simp add: downstream_def)
  have 12: "set xs = {n. n \<noteq> i \<and> (\<exists>k \<le> 10. walk g Incoming f i k n)}"
    if "upstream g i None f = Inr xs" for xs
    using traverse_exact [of g Incoming i 10 f xs] that by (simp add: upstream_def)
  from 1 2 3 4 5 6 show ?thesis
    using 7 8 9 10 11 12 by (intro conjI allI impI ballI)
qed

theorem default_maxDepth_witness:
  "getDownstream ''service:api'' Undefined (Val [''depends_on'', ''calls''])
     = Inr \<lparr>endpoint = ''/api/query/downstream/'', node = ''service:api'',
            params = [(''max_depth'', ''10''), (''edge_types'', ''depends_on,calls'')]\<rparr>
   \<and> downstream cycle_ABC ''A'' None None = Inr [''B'', ''C'']
   \<and> (\<exists>k. 0 < k \<and> k \<le> 10 \<and> walk cycle_ABC Outgoing None ''A'' k ''C'')"
proof -
  have a: "getDownstream ''service:api'' Undefined (Val [''depends_on'', ''calls''])
     = Inr \<lparr>endpoint = ''/api/query/downstream/'', node = ''service:api'',
            params = [(''max_depth'', ''10''), (''edge_types'', ''depends_on,calls'')]\<rparr>"
    by (simp add: getDownstream_def traversal_request_def default_arg_def number_toString_10)
  have b: "downstream cycle_ABC ''A'' None None = Inr [''B'', ''C'']"
    by (simp add: downstream_def traverse_def cycle_ABC_def has_node_def service_def
          depends_on_def bfsFrontier_def expand_def neighbours_def follows_def)
  note T = default_maxDepth [of "''service:api''" "Val [''depends_on'', ''calls'']" 10
      cycle_ABC "''A''" None]
  from T b have c: "\<exists>k. 0 < k \<and> k \<le> 10 \<and> walk cycle_ABC Outgoing None ''A'' k ''C''"
    by simp
  from a b c show ?thesis by (intro conjI)
qed

subsection \<open>Blast radius\<close>

lemma set_owning_teams:
  "set (owning_teams g xs) = {t. \<exists>n \<in> set xs. getOwner g n = Inr (OwnedBy t)}"
  by (auto simp: owning_teams_def split: sum.splits owner_result.splits)

lemma length_owning_teams:
  "length (owning_teams g xs) = card {t. \<exists>n \<in> set xs. getOwner g n = Inr (OwnedBy t)}"
proof -
  have "distinct (owning_teams g xs)" by (simp add: owning_teams_def)
  then have "length (owning_teams g xs) = card (set (owning_teams g xs))"
    by (simp add: distinct_card)
  then show ?thesis by (simp add: set_owning_teams)
qed

text \<open>
  C6. \<open>getBlastRadius\<close> without a depth sends \<open>max_depth=5\<close>. On the operations modelled
  from the spec, \<open>blastRadius\<close> without a depth is \<open>blastRadius\<close> with depth 5; its
  affected list is what \<open>upstream\<close> with depth 5 returns, with the number of affected
  nodes and the number of distinct owning teams among them; an error of \<open>upstream\<close> is
  the error of \<open>blastRadius\<close>.
\<close>

theorem blastRadius_upstream:
  "getBlastRadius nodeId Undefined
     = Inr \<lparr>endpoint = ''/api/query/blast-radius/'', node = nodeId,
            params = [(''max_depth'', ''5'')]\<rparr>
   \<and> blastRadius cfg g i None = blastRadius cfg g i (Some 5)
   \<and> (\<forall>xs. upstream g i (Some 5) None = Inr xs \<longrightarrow>
         (\<exists>r. blastRadius cfg g i None = Inr r \<and> br_affected r = xs \<and> br_count r = length xs
              \<and> br_teams r = card {t. \<exists>n \<in> set xs. getOwner g n = Inr (OwnedBy t)}))
   \<and> (\<forall>e. upstream g i (Some 5) None = Inl e \<longrightarrow> blastRadius cfg g i None = Inl e)"
proof -
  have 1: "getBlastRadius nodeId Undefined
     = Inr \<lparr>endpoint = ''/api/query/blast-radius/'', node = nodeId,
            params = [(''max_depth'', ''5'')]\<rparr>"
    by (simp add: getBlastRadius_def traversal_request_def default_arg_def number_toString_5)
  have 2: "blastRadius cfg g i None = blastRadius cfg g i (Some 5)"
    by (simp add: blastRadius_def)
  have 3: "\<exists>r. blastRadius cfg g i None = Inr r \<and> br_affected r = xs \<and> br_count r = length xs
              \<and> br_teams r = card {t. \<exists>n \<in> set xs. getOwner g n = Inr (OwnedBy t)}"
    if "upstream g i (Some 5) None = Inr xs" for xs
    using that by (simp add: blastRadius_def length_owning_teams)
  have 4: "blastRadius cfg g i None = Inl e" if "upstream g i (Some 5) None = Inl e" for e
    using that by (simp add: blastRadius_def)
  from 1 2 show ?thesis using 3 4 by (intro conjI allI impI)
qed

theorem blastRadius_upstream_witness:
  "upstream example_graph ''database:orders-db'' (Some 5) None
     = Inr [''service:orders'', ''service:api'', ''team:payments'']
   \<and> blastRadius example_config example_graph ''database:orders-db'' None
     = Inr \<lparr>br_affected = [''service:orders'', ''service:api'', ''team:payments''],
            br_count = 3, br_teams = 1, br_severity = LOW\<rparr>
   \<and> (\<exists>r. blastRadius example_config example_graph ''database:orders-db'' None = Inr r
          \<and> br_affected r = [''service:orders'', ''service:api'', ''team:payments'']
          \<and> br_count r = length [''service:orders'', ''service:api'', ''team:payments''])"
proof -
  have u: "upstream example_graph ''database:orders-db'' (Some 5) None
     = Inr [''service:orders'', ''service:api'', ''team:payments'']"
    by (simp add: upstream_def traverse_def example_graph_def has_node_def service_def
          depends_on_def bfsFrontier_def expand_def neighbours_def follows_def)
  have b: "blastRadius example_config example_graph ''database:orders-db'' None
     = Inr \<lparr>br_affected = [''service:orders'', ''service:api'', ''team:payments''],
            br_count = 3, br_teams = 1, br_severity = LOW\<rparr>"
    unfolding blastRadius_def option.case u sum.case
    by (simp add: owning_teams_def getOwner_def getNode_def example_graph_def service_def
          depends_on_def classify_def example_config_def)
  note T = blastRadius_upstream [of "''database:orders-db''" example_config example_graph
      "''database:orders-db''"]
  from T u have c: "\<exists>r. blastRadius example_config example_graph ''database:orders-db'' None = Inr r
          \<and> br_affected r = [''service:orders'', ''service:api'', ''team:payments'']
          \<and> br_count r = length [''service:orders'', ''service:api'', ''team:payments'']"
    by blast
  from u b c show ?thesis by (intro conjI)
qed

lemma bfsFrontier_leaf:
  "neighbours g dir f i = [] \<Longrightarrow> visited (bfsFrontier g i dir f maxDepth) = [(i, 0)]"
  by (simp add: bfsFrontier_def expand_def)

lemma classify_empty: "classify cfg 0 t = LOW"
  by (simp add: classify_def)

text \<open>
  C7. On the operations modelled from the spec, \<open>blastRadius\<close> on a node of the graph
  with no incoming edge returns a result, not an error: nothing affected, no team,
  severity \<open>LOW\<close>; and every result with an empty affected list has severity \<open>LOW\<close>.
  \<open>renderContent\<close> shows a \<open>blast_radius\<close> response without an error field whose count
  is not positive as the "no direct impact" panel: not the error panel, and nothing
  throws.
\<close>

theorem blastRadius_no_impact:
  "(has_node g i \<and> neighbours g Incoming None i = [] \<and> (\<forall>d. maxDepth = Some d \<longrightarrow> 0 \<le> d)
      \<longrightarrow> blastRadius cfg g i maxDepth
            = Inr \<lparr>br_affected = [], br_count = 0, br_teams = 0, br_severity = LOW\<rparr>)
   \<and> (\<forall>r. blastRadius cfg g i maxDepth = Inr r \<and> br_affected r = []
         \<longrightarrow> br_count r = 0 \<and> br_teams r = 0 \<and> br_severity r = LOW)
   \<and> (c_type c = Some ''blast_radius'' \<and> \<not> truthy (c_error c)
       \<and> \<not> (\<exists>n. affected_services_count c = Some n \<and> n > 0)
      \<longrightarrow> renderContent (Obj c) = Inr (BlastRadiusPanel (service_analyzed c) NoDirectImpact))"
proof -
  have 1: "blastRadius cfg g i maxDepth
            = Inr \<lparr>br_affected = [], br_count = 0, br_teams = 0, br_severity = LOW\<rparr>"
    if h: "has_node g i" "neighbours g Incoming None i = []" "\<forall>d. maxDepth = Some d \<longrightarrow> 0 \<le> d"
  proof -
    let ?d = "case maxDepth of None \<Rightarrow> 5 | Some d \<Rightarrow> d"
    have "0 \<le> ?d" using h(3) by (cases maxDepth) auto
    then have "upstream g i (Some ?d) None = Inr []"
      using h(1) bfsFrontier_leaf [OF h(2)] by (simp add: upstream_def traverse_def)
    then show ?thesis by (simp add: blastRadius_def owning_teams_def classify_empty)
  qed
  have 2: "br_count r = 0 \<and> br_teams r = 0 \<and> br_severity r = LOW"
    if "blastRadius cfg g i maxDepth = Inr r" "br_affected r = []" for r
    using that
    by (auto simp: blastRadius_def owning_teams_def classify_empty split: sum.splits)
  have 3: "renderContent (Obj c) = Inr (BlastRadiusPanel (service_analyzed c) NoDirectImpact)"
    if "c_type c = Some ''blast_radius''" "\<not> truthy (c_error c)"
      "\<not> (\<exists>n. affected_services_count c = Some n \<and> n > 0)"
    using that
    by (auto simp: renderContent_def when_truthy_def render_blast_radius_def split: option.splits)
  from 1 2 3 show ?thesis by (intro conjI allI impI) blast+
qed

theorem blastRadius_no_impact_witness:
  "has_node example_graph ''service:api''
   \<and> neighbours example_graph Incoming None ''service:api'' = []
   \<and> blastRadius example_config example_graph ''service:api'' None
       = Inr \<lparr>br_affected = [], br_count = 0, br_teams = 0, br_severity = LOW\<rparr>
   \<and> renderContent (Obj no_impact_response)
       = Inr (BlastRadiusPanel (Some ''service:api'') NoDirectImpact)"
proof -
  have a: "has_node example_graph ''service:api''"
    by (simp add: has_node_def example_graph_def service_def)
  have b: "neighbours example_graph Incoming None ''service:api'' = []"
    by (simp add: neighbours_def follows_def example_graph_def depends_on_def)
  have c: "c_type no_impact_response = Some ''blast_radius''"
    and d: "\<not> truthy (c_error no_impact_response)"
    and e: "\<not> (\<exists>n. affected_services_count no_impact_response = Some n \<and> n > 0)"
    and f: "service_analyzed no_impact_response = Some ''service:api''"
    by (simp_all add: no_impact_response_def)
  note T = blastRadius_no_impact [of example_graph "''service:api''" None example_config
      no_impact_response]
  from T a b have g: "blastRadius example_config example_graph ''service:api'' None
       = Inr \<lparr>br_affected = [], br_count = 0, br_teams = 0, br_severity = LOW\<rparr>"
    by simp
  from T c d e have "renderContent (Obj no_impact_response)
       = Inr (BlastRadiusPanel (service_analyzed no_impact_response) NoDirectImpact)"
    by blast
  then have h: "renderContent (Obj no_impact_response)
       = Inr (BlastRadiusPanel (Some ''service:api'') NoDirectImpact)"
    unfolding f .
  from a b g h show ?thesis by (intro conjI)
qed

subsection \<open>The dashboard's graph data\<close>

lemma has_endpoint_id: "has_endpoint ids e \<Longrightarrow> endpoint_id e \<in> ids"
  by (cases e) auto

lemma refilter_links_closed: "links_closed \<lparr>nodes = ns, links = refilter_links ns ls\<rparr>"
  by (auto simp: links_closed_def refilter_links_def list_all_iff dest: has_endpoint_id)

lemma loadGraphData_closed: "links_closed (graphData (loadGraphData (Some data) st))"
  by (auto simp: loadGraphData_def links_closed_def validEdges_def Let_def list_all_iff)

lemma filteredData_active:
  "type_filter_active ft \<or> search_active q \<Longrightarrow> links_closed (filteredData gd ft q)"
  by (auto simp: filteredData_def Let_def refilter_links_closed)

lemma filteredData_inactive:
  "\<not> type_filter_active ft \<Longrightarrow> \<not> search_active q \<Longrightarrow> filteredData gd ft q = gd"
  by (simp add: filteredData_def)

text \<open>
  C5. After a successful load, every link handed to the views starts and ends at the id of
  a loaded node; the links are exactly the edges of the response with both ends among the
  loaded node ids, in order, and the edge count of the statistics counts those links.
\<close>

theorem loadGraphData_no_dangling:
  "links_closed (graphData (loadGraphData (Some data) st))
   \<and> edges (stats (loadGraphData (Some data) st))
       = length (links (graphData (loadGraphData (Some data) st)))
   \<and> map (\<lambda>l. (l_source l, l_target l, l_type l)) (links (graphData (loadGraphData (Some data) st)))
       = map (\<lambda>e. (Id (e_source e), Id (e_target e), e_type e))
           (filter (\<lambda>e. e_source e \<in> set (map node_id (nodes (graphData (loadGraphData (Some data) st))))
                        \<and> e_target e \<in> set (map node_id (nodes (graphData (loadGraphData (Some data) st)))))
              (case json_edges data of Some es \<Rightarrow> es | None \<Rightarrow> []))"
proof -
  have 1: "links_closed (graphData (loadGraphData (Some data) st))"
    by (rule loadGraphData_closed)
  have 2: "edges (stats (loadGraphData (Some data) st))
       = length (links (graphData (loadGraphData (Some data) st)))"
    by (simp add: loadGraphData_def Let_def)
  have 3: "map (\<lambda>l. (l_source l, l_target l, l_type l)) (links (graphData (loadGraphData (Some data) st)))
       = map (\<lambda>e. (Id (e_source e), Id (e_target e), e_type e))
           (filter (\<lambda>e. e_source e \<in> set (map node_id (nodes (graphData (loadGraphData (Some data) st))))
                        \<and> e_target e \<in> set (map node_id (nodes (graphData (loadGraphData (Some data) st)))))
              (case json_edges data of Some es \<Rightarrow> es | None \<Rightarrow> []))"
    by (simp add: loadGraphData_def Let_def validEdges_def comp_def)
  from 1 2 3 show ?thesis by (intro conjI)
qed

text \<open>
  C9. The links of the filtered view end in nodes of the filtered view: for a graph as
  \<open>loadGraphData\<close> stores it, under every type filter and search text; for any graph
  data whose links are closed already; and for any graph data at all as soon as one of the
  two filters is active, since each active filter re-filters the links against the ids of
  the nodes it kept.
\<close>

theorem filteredData_links_closed:
  "links_closed (filteredData (graphData (loadGraphData (Some data) st)) filterType searchQuery)
   \<and> (links_closed gd \<longrightarrow> links_closed (filteredData gd filterType searchQuery))
   \<and> (type_filter_active filterType \<or> search_active searchQuery
        \<longrightarrow> links_closed (filteredData gd filterType searchQuery))"
proof -
  have keep: "links_closed (filteredData g filterType searchQuery)" if "links_closed g" for g
  proof (cases "type_filter_active filterType \<or> search_active searchQuery")
    case True
    then show ?thesis by (rule filteredData_active)
  next
    case False
    with that show ?thesis by (simp add: filteredData_inactive)
  qed
  have 1: "links_closed (filteredData (graphData (loadGraphData (Some data) st)) filterType searchQuery)"
    by (rule keep [OF loadGraphData_closed])
  from 1 keep filteredData_active show ?thesis by (intro conjI impI)
qed

theorem filteredData_links_closed_witness:
  "type_filter_active ''service'' \<and> \<not> search_active ''  ''
   \<and> filteredData (graphData (loadGraphData (Some sample_json) initial_dashboard)) ''service'' ''  ''
       = \<lparr>nodes =
            [\<lparr>node_id = ''service:api'', node_name = ''api'', node_type = ''service'',
              node_team = Some ''platform''\<rparr>,
             \<lparr>node_id = ''service:orders'', node_name = ''Orders'', node_type = ''service'',
              node_team = None\<rparr>],
          links =
            [\<lparr>l_source = Id ''service:api'', l_target = Id ''service:orders'',
              l_type = ''depends_on''\<rparr>]\<rparr>
   \<and> links_closed (filteredData (graphData (loadGraphData (Some sample_json) initial_dashboard))
         ''service'' ''  '')"
proof -
  have a: "type_filter_active ''service''" by (simp add: type_filter_active_def)
  have b: "\<not> search_active ''  ''" by (simp add: search_active_def js_trim_def is_space_def)
  have c: "filteredData (graphData (loadGraphData (Some sample_json) initial_dashboard)) ''service'' ''  ''
       = \<lparr>nodes =
            [\<lparr>node_id = ''service:api'', node_name = ''api'', node_type = ''service'',
              node_team = Some ''platform''\<rparr>,
             \<lparr>node_id = ''service:orders'', node_name = ''Orders'', node_type = ''service'',
              node_team = None\<rparr>],
          links =
            [\<lparr>l_source = Id ''service:api'', l_target = Id ''service:orders'',
              l_type = ''depends_on''\<rparr>]\<rparr>"
    using a b
    by (simp add: filteredData_def loadGraphData_def sample_json_def validEdges_def
          refilter_links_def Let_def)
  note T = filteredData_links_closed [of sample_json initial_dashboard "''service''" "''  ''"
      "graphData (loadGraphData (Some sample_json) initial_dashboard)"]
  from T a have d: "links_closed (filteredData (graphData (loadGraphData (Some sample_json) initial_dashboard))
         ''service'' ''  '')"
    by blast
  from a b c d show ?thesis by (intro conjI)
qed

subsection \<open>Names of affected services\<close>

lemma js_split_not_Nil: "js_split sep s \<noteq> []"
  by (induction s) (auto split: list.splits)

lemma js_split_no_sep: "sep \<notin> set s \<Longrightarrow> js_split sep s = [s]"
  by (induction s) auto

lemma js_split_length: "length (js_split sep s) = Suc (length (filter (\<lambda>c. c = sep) s))"
  by (induction s) (auto split: list.splits simp: js_split_not_Nil)

lemma js_split_append:
  "sep \<notin> set a \<Longrightarrow> js_split sep (a @ sep # b) = a # js_split sep b"
  by (induction a) auto

lemma js_split_hd: "\<exists>ws. js_split sep b = takeWhile (\<lambda>c. c \<noteq> sep) b # ws"
  by (induction b) (auto split: list.splits)

lemma serviceName_second:
  assumes "CHR '':'' \<notin> set a"
  shows "serviceName (a @ CHR '':'' # b) = Some (takeWhile (\<lambda>c. c \<noteq> CHR '':'') b)"
proof -
  obtain ws where "js_split (CHR '':'') b = takeWhile (\<lambda>c. c \<noteq> CHR '':'') b # ws"
    using js_split_hd by blast
  then show ?thesis using assms by (simp add: serviceName_def js_index_def js_split_append)
qed

lemma serviceName_None: "(serviceName sid = None) = (CHR '':'' \<notin> set sid)"
proof -
  have "(serviceName sid = None) = (filter (\<lambda>c. c = CHR '':'') sid = [])"
    by (simp add: serviceName_def js_index_def js_split_length)
  also have "\<dots> = (CHR '':'' \<notin> set sid)"
    by (auto simp: filter_empty_conv)
  finally show ?thesis .
qed

lemma renderContent_chips:
  assumes "renderContent (Obj c) = Inr (BlastRadiusPanel sa (Impacted imp))"
  shows "\<exists>ids. affected_services c = Some ids \<and> imp_chips imp = map render_service ids"
  using assms
  by (auto simp: renderContent_def render_blast_radius_def
      split: if_splits option.splits sum.splits)

text \<open>
  C10. In the impact panel of a blast-radius response every affected service id is shown
  under element 1 of the id split on \<open>':'\<close>: \<open>service:api\<close> is shown as \<open>api\<close>, an id
  \<open>a:b\<close> with no \<open>':'\<close> in \<open>a\<close> as \<open>b\<close> up to its next \<open>':'\<close>, and an id
  without \<open>':'\<close> has the name \<open>undefined\<close>, not the id.
\<close>

theorem serviceName_partial:
  "serviceName ''service:api'' = Some ''api''
   \<and> (\<forall>sid. (serviceName sid = None) = (CHR '':'' \<notin> set sid))
   \<and> (\<forall>a b. CHR '':'' \<notin> set a \<longrightarrow>
         serviceName (a @ CHR '':'' # b) = Some (takeWhile (\<lambda>c. c \<noteq> CHR '':'') b))
   \<and> (\<forall>c sa imp. renderContent (Obj c) = Inr (BlastRadiusPanel sa (Impacted imp)) \<longrightarrow>
         (\<exists>ids. affected_services c = Some ids
            \<and> imp_chips imp = map (\<lambda>sid. \<lparr>chip_key = sid, chip_label = serviceName sid\<rparr>) ids))"
proof -
  have 1: "serviceName ''service:api'' = Some ''api''"
    by (simp add: serviceName_def js_index_def)
  have 4: "\<exists>ids. affected_services c = Some ids
            \<and> imp_chips imp = map (\<lambda>sid. \<lparr>chip_key = sid, chip_label = serviceName sid\<rparr>) ids"
    if "renderContent (Obj c) = Inr (BlastRadiusPanel sa (Impacted imp))" for c sa imp
    using renderContent_chips [OF that] by (simp add: render_service_def [abs_def])
  from 1 show ?thesis using serviceName_None serviceName_second 4 by (intro conjI allI impI)
qed

theorem serviceName_partial_witness:
  "CHR '':'' \<notin> set ''service''
   \<and> serviceName ''service:orders:v2'' = Some ''orders''
   \<and> renderContent (Obj impact_response)
       = Inr (BlastRadiusPanel (Some ''database:orders-db'')
           (Impacted \<lparr>imp_count = 2, imp_plural = ''s'',
              imp_chips = [\<lparr>chip_key = ''service:orders'', chip_label = Some ''orders''\<rparr>,
                           \<lparr>chip_key = ''api'', chip_label = None\<rparr>],
              imp_teams = None, imp_colour = Green, imp_severity = Some ''LOW''\<rparr>))
   \<and> (\<exists>ids. affected_services impact_response = Some ids
      \<and> imp_chips \<lparr>imp_count = 2, imp_plural = ''s'',
              imp_chips = [\<lparr>chip_key = ''service:orders'', chip_label = Some ''orders''\<rparr>,
                           \<lparr>chip_key = ''api'', chip_label = None\<rparr>],
              imp_teams = None, imp_colour = Green, imp_severity = Some ''LOW''\<rparr>
          = map (\<lambda>sid. \<lparr>chip_key = sid, chip_label = serviceName sid\<rparr>) ids)"
proof -
  note T = serviceName_partial
  have a: "CHR '':'' \<notin> set ''service''" by simp
  from T a have "serviceName (''service'' @ CHR '':'' # ''orders:v2'')
      = Some (takeWhile (\<lambda>c. c \<noteq> CHR '':'') ''orders:v2'')"
    by blast
  then have b: "serviceName ''service:orders:v2'' = Some ''orders''" by simp
  have c: "renderContent (Obj impact_response)
       = Inr (BlastRadiusPanel (Some ''database:orders-db'')
           (Impacted \<lparr>imp_count = 2, imp_plural = ''s'',
              imp_chips = [\<lparr>chip_key = ''service:orders'', chip_label = Some ''orders''\<rparr>,
                           \<lparr>chip_key = ''api'', chip_label = None\<rparr>],
              imp_teams = None, imp_colour = Green, imp_severity = Some ''LOW''\<rparr>))"
    by (simp add: renderContent_def render_blast_radius_def impact_response_def when_truthy_def
          plural_def severity_class_def render_service_def serviceName_def js_index_def)
  from T c have d: "\<exists>ids. affected_services impact_response = Some ids
      \<and> imp_chips \<lparr>imp_count = 2, imp_plural = ''s'',
              imp_chips = [\<lparr>chip_key = ''service:orders'', chip_label = Some ''orders''\<rparr>,
                           \<lparr>chip_key = ''api'', chip_label = None\<rparr>],
              imp_teams = None, imp_colour = Green, imp_severity = Some ''LOW''\<rparr>
          = map (\<lambda>sid. \<lparr>chip_key = sid, chip_label = serviceName sid\<rparr>) ids"
    by blast
  from a b c d show ?thesis by (intro conjI)
qed

end
